theory Spec2Isabelle
  imports Main
begin

section \<open>The cache store: a model of the Redis commands the services issue\<close>

text \<open>
  \<open>RedisService\<close> (redis.service.ts) forwards every call to an ioredis client. The
  store behind the client is modelled as a keyspace with a millisecond clock. A key
  holds a byte string or a set of strings, and may carry an absolute expiry instant.
  Expiry is lazy, as in the server: a key whose expiry instant lies strictly before
  the current time is treated as absent by every command.

  JavaScript numbers that the code uses as counters, limits and durations in seconds
  are modelled as \<open>int\<close>; the process clock \<open>Date.now()\<close> and the server clock are
  one clock, in milliseconds.
\<close>

datatype error =
    WRONGTYPE
  | NotAnInteger
  | IncrOverflow
  | InvalidExpire
  | WrongArity
  | DbError string

datatype rvalue = RStr string | RSet "string list"

record entry =
  ent_val :: rvalue
  ent_exp :: "nat option"

record redis =
  now :: nat
  keyspace :: "string \<rightharpoonup> entry"

definition expired :: "nat \<Rightarrow> entry \<Rightarrow> bool" where
  "expired t e = (case ent_exp e of None \<Rightarrow> False | Some w \<Rightarrow> w < t)"

definition lookup :: "redis \<Rightarrow> string \<Rightarrow> entry option" where
  "lookup r k =
     (case keyspace r k of
        None \<Rightarrow> None
      | Some e \<Rightarrow> if expired (now r) e then None else Some e)"

definition store :: "redis \<Rightarrow> string \<Rightarrow> entry \<Rightarrow> redis" where
  "store r k e = r\<lparr>keyspace := (keyspace r)(k \<mapsto> e)\<rparr>"

definition remove :: "redis \<Rightarrow> string \<Rightarrow> redis" where
  "remove r k = r\<lparr>keyspace := (keyspace r)(k := None)\<rparr>"

definition advance :: "nat \<Rightarrow> redis \<Rightarrow> redis" where
  "advance d r = r\<lparr>now := now r + d\<rparr>"

definition deadline :: "redis \<Rightarrow> int \<Rightarrow> nat" where
  "deadline r secs = now r + nat secs * 1000"

subsection \<open>Decimal integers, as the server prints and reads them\<close>

fun decimal :: "nat \<Rightarrow> string" where
  "decimal n =
     (if n < 10 then [char_of (48 + n)]
      else decimal (n div 10) @ [char_of (48 + n mod 10)])"

declare decimal.simps [simp del]

definition ll2string :: "int \<Rightarrow> string" where
  "ll2string i = (if i < 0 then CHR ''-'' # decimal (nat (- i)) else decimal (nat i))"

definition is_digit :: "char \<Rightarrow> bool" where
  "is_digit c = (48 \<le> (of_char c :: nat) \<and> (of_char c :: nat) \<le> 57)"

definition digit_val :: "char \<Rightarrow> nat" where
  "digit_val c = of_char c - 48"

definition nat_of_digits :: "string \<Rightarrow> nat" where
  "nat_of_digits ds = foldl (\<lambda>a c. 10 * a + digit_val c) 0 ds"

text \<open>
  The server's \<open>string2ll\<close>: a strict reading, with no sign other than a leading
  minus, no leading zero, no empty string, and a result within 64 signed bits.
\<close>

definition string2ll :: "string \<Rightarrow> int option" where
  "string2ll s =
     (if s = ''0'' then Some 0
      else
        let neg = (s \<noteq> [] \<and> hd s = CHR ''-'');
            ds = (if neg then tl s else s)
        in if ds = [] \<or> \<not> list_all is_digit ds \<or> hd ds = CHR ''0'' then None
           else
             let v = (if neg then - int (nat_of_digits ds) else int (nat_of_digits ds))
             in if v < - (2 ^ 63) \<or> 2 ^ 63 \<le> v then None else Some v)"

subsection \<open>Commands\<close>

definition cmd_GET :: "redis \<Rightarrow> string \<Rightarrow> error + string option" where
  "cmd_GET r k =
     (case lookup r k of
        None \<Rightarrow> Inr None
      | Some e \<Rightarrow> (case ent_val e of RStr v \<Rightarrow> Inr (Some v) | RSet _ \<Rightarrow> Inl WRONGTYPE))"

definition cmd_SET :: "redis \<Rightarrow> string \<Rightarrow> string \<Rightarrow> redis" where
  "cmd_SET r k v = store r k \<lparr>ent_val = RStr v, ent_exp = None\<rparr>"

definition cmd_SETEX :: "redis \<Rightarrow> string \<Rightarrow> int \<Rightarrow> string \<Rightarrow> error + redis" where
  "cmd_SETEX r k secs v =
     (if secs \<le> 0 then Inl InvalidExpire
      else Inr (store r k \<lparr>ent_val = RStr v, ent_exp = Some (deadline r secs)\<rparr>))"

text \<open>\<open>SET k v EX secs NX\<close>: the reply is \<open>OK\<close> (\<open>True\<close>) or nil (\<open>False\<close>).\<close>

definition cmd_SET_EX_NX :: "redis \<Rightarrow> string \<Rightarrow> string \<Rightarrow> int \<Rightarrow> error + bool \<times> redis" where
  "cmd_SET_EX_NX r k v secs =
     (if secs \<le> 0 then Inl InvalidExpire
      else case lookup r k of
             Some _ \<Rightarrow> Inr (False, r)
           | None \<Rightarrow> Inr (True, store r k \<lparr>ent_val = RStr v, ent_exp = Some (deadline r secs)\<rparr>))"

fun del_keys :: "redis \<Rightarrow> string list \<Rightarrow> nat \<times> redis" where
  "del_keys r [] = (0, r)"
| "del_keys r (k # ks) =
     (case lookup r k of
        None \<Rightarrow> del_keys (remove r k) ks
      | Some _ \<Rightarrow> (case del_keys (remove r k) ks of (n, r') \<Rightarrow> (Suc n, r')))"

definition cmd_DEL :: "redis \<Rightarrow> string list \<Rightarrow> error + nat \<times> redis" where
  "cmd_DEL r ks = (if ks = [] then Inl WrongArity else Inr (del_keys r ks))"

definition cmd_EXISTS :: "redis \<Rightarrow> string \<Rightarrow> nat" where
  "cmd_EXISTS r k = (case lookup r k of None \<Rightarrow> 0 | Some _ \<Rightarrow> 1)"

definition cmd_EXPIRE :: "redis \<Rightarrow> string \<Rightarrow> int \<Rightarrow> nat \<times> redis" where
  "cmd_EXPIRE r k secs =
     (case lookup r k of
        None \<Rightarrow> (0, r)
      | Some e \<Rightarrow>
          if secs \<le> 0 then (1, remove r k)
          else (1, store r k (e\<lparr>ent_exp := Some (deadline r secs)\<rparr>)))"

definition cmd_TTL :: "redis \<Rightarrow> string \<Rightarrow> int" where
  "cmd_TTL r k =
     (case lookup r k of
        None \<Rightarrow> - 2
      | Some e \<Rightarrow>
          (case ent_exp e of
             None \<Rightarrow> - 1
           | Some w \<Rightarrow> int ((w - now r + 500) div 1000)))"

definition cmd_INCR :: "redis \<Rightarrow> string \<Rightarrow> error + int \<times> redis" where
  "cmd_INCR r k =
     (case lookup r k of
        None \<Rightarrow> Inr (1, store r k \<lparr>ent_val = RStr (ll2string 1), ent_exp = None\<rparr>)
      | Some e \<Rightarrow>
          (case ent_val e of
             RSet _ \<Rightarrow> Inl WRONGTYPE
           | RStr v \<Rightarrow>
               (case string2ll v of
                  None \<Rightarrow> Inl NotAnInteger
                | Some n \<Rightarrow>
                    if n = 2 ^ 63 - 1 then Inl IncrOverflow
                    else Inr (n + 1, store r k (e\<lparr>ent_val := RStr (ll2string (n + 1))\<rparr>)))))"

definition cmd_SADD :: "redis \<Rightarrow> string \<Rightarrow> string \<Rightarrow> error + nat \<times> redis" where
  "cmd_SADD r k m =
     (case lookup r k of
        None \<Rightarrow> Inr (1, store r k \<lparr>ent_val = RSet [m], ent_exp = None\<rparr>)
      | Some e \<Rightarrow>
          (case ent_val e of
             RStr _ \<Rightarrow> Inl WRONGTYPE
           | RSet ms \<Rightarrow>
               if m \<in> set ms then Inr (0, r)
               else Inr (1, store r k (e\<lparr>ent_val := RSet (ms @ [m])\<rparr>))))"

definition cmd_SMEMBERS :: "redis \<Rightarrow> string \<Rightarrow> error + string list" where
  "cmd_SMEMBERS r k =
     (case lookup r k of
        None \<Rightarrow> Inr []
      | Some e \<Rightarrow> (case ent_val e of RStr _ \<Rightarrow> Inl WRONGTYPE | RSet ms \<Rightarrow> Inr ms))"

section \<open>RedisService\<close>

text \<open>
  An optional numeric argument is an \<open>int option\<close>; \<open>if (ttl)\<close> is JavaScript
  truthiness, false for an absent argument and for zero.
\<close>

definition truthy_num :: "int option \<Rightarrow> bool" where
  "truthy_num x = (case x of None \<Rightarrow> False | Some n \<Rightarrow> n \<noteq> 0)"

definition rs_get :: "redis \<Rightarrow> string \<Rightarrow> error + string option" where
  "rs_get r key = cmd_GET r key"

definition rs_set :: "redis \<Rightarrow> string \<Rightarrow> string \<Rightarrow> int option \<Rightarrow> error + redis" where
  "rs_set r key v ttl =
     (if truthy_num ttl then cmd_SETEX r key (the ttl) v else Inr (cmd_SET r key v))"

definition rs_del :: "redis \<Rightarrow> string list \<Rightarrow> error + nat \<times> redis" where
  "rs_del r keys = cmd_DEL r keys"

definition rs_exists :: "redis \<Rightarrow> string \<Rightarrow> bool" where
  "rs_exists r key = (cmd_EXISTS r key = 1)"

definition rs_expire :: "redis \<Rightarrow> string \<Rightarrow> int \<Rightarrow> bool \<times> redis" where
  "rs_expire r key seconds = (case cmd_EXPIRE r key seconds of (n, r') \<Rightarrow> (n = 1, r'))"

definition rs_ttl :: "redis \<Rightarrow> string \<Rightarrow> int" where
  "rs_ttl r key = cmd_TTL r key"

subsection \<open>Distributed lock\<close>

definition lockKey :: "string \<Rightarrow> string" where
  "lockKey key = ''lock:'' @ key"

text \<open>\<open>acquireLock(key, ttl = 30)\<close>: an absent second argument is 30 seconds.\<close>

definition lock_ttl :: "int option \<Rightarrow> int" where
  "lock_ttl ttl = (case ttl of None \<Rightarrow> 30 | Some n \<Rightarrow> n)"

definition acquireLock :: "redis \<Rightarrow> string \<Rightarrow> int option \<Rightarrow> error + bool \<times> redis" where
  "acquireLock r key ttl =
     (let identifier = decimal (now r)
      in cmd_SET_EX_NX r (lockKey key) identifier (lock_ttl ttl))"

definition releaseLock :: "redis \<Rightarrow> string \<Rightarrow> error + bool \<times> redis" where
  "releaseLock r key =
     (case rs_del r [lockKey key] of
        Inl e \<Rightarrow> Inl e
      | Inr (n, r') \<Rightarrow> Inr (0 < n, r'))"

subsection \<open>Rate limiting\<close>

definition rs_incr :: "redis \<Rightarrow> string \<Rightarrow> error + int \<times> redis" where
  "rs_incr r key = cmd_INCR r key"

definition RATE_LIMIT :: "string \<Rightarrow> string" where
  "RATE_LIMIT key = ''rate_limit:'' @ key"

record rate_result =
  allowed :: bool
  remaining :: int
  resetAt :: int

definition checkRateLimit :: "redis \<Rightarrow> string \<Rightarrow> int \<Rightarrow> int \<Rightarrow> error + rate_result \<times> redis" where
  "checkRateLimit r key limit window =
     (let redisKey = RATE_LIMIT key
      in case rs_incr r redisKey of
           Inl e \<Rightarrow> Inl e
         | Inr (current, r1) \<Rightarrow>
             let r2 = (if current = 1 then snd (rs_expire r1 redisKey window) else r1);
                 ttl = rs_ttl r2 redisKey;
                 reset = int (now r2) + ttl * 1000
             in Inr (\<lparr>allowed = current \<le> limit,
                      remaining = max 0 (limit - current),
                      resetAt = reset\<rparr>, r2))"

text \<open>
  The value of a window counter as the server reads it: an absent key counts as 0,
  which is where \<open>INCR\<close> starts from.
\<close>

definition window_count :: "redis \<Rightarrow> string \<Rightarrow> int" where
  "window_count r key =
     (case lookup r (RATE_LIMIT key) of
        None \<Rightarrow> 0
      | Some e \<Rightarrow>
          (case ent_val e of
             RSet _ \<Rightarrow> 0
           | RStr v \<Rightarrow> (case string2ll v of None \<Rightarrow> 0 | Some n \<Rightarrow> n)))"

definition window_expiry :: "redis \<Rightarrow> string \<Rightarrow> nat option" where
  "window_expiry r key =
     (case lookup r (RATE_LIMIT key) of None \<Rightarrow> None | Some e \<Rightarrow> ent_exp e)"

text \<open>
  A sequence of calls on one key: before each call the given number of milliseconds
  passes; each call has its own limit and window length.
\<close>

fun rate_calls :: "redis \<Rightarrow> string \<Rightarrow> (nat \<times> int \<times> int) list \<Rightarrow> error + redis" where
  "rate_calls r key [] = Inr r"
| "rate_calls r key ((d, limit, window) # cs) =
     (case checkRateLimit (advance d r) key limit window of
        Inl e \<Rightarrow> Inl e
      | Inr (_, r') \<Rightarrow> rate_calls r' key cs)"

subsection \<open>JSON values\<close>

text \<open>
  Cached values are JSON data. \<open>JSON.parse\<close> and \<open>JSON.stringify\<close> are built into
  the runtime and \<open>generateTenantCachePrefix\<close> comes from a package outside these
  sources, so the services take them from an environment. \<open>JSON_parse\<close> returns
  \<open>None\<close> where \<open>JSON.parse\<close> throws a syntax error.
\<close>

datatype json =
    JNull
  | JBool bool
  | JNum int
  | JStr string
  | JArr "json list"
  | JObj "(string \<times> json) list"

record env =
  JSON_parse :: "string \<Rightarrow> json option"
  JSON_stringify :: "json \<Rightarrow> string"
  generateTenantCachePrefix :: "string \<Rightarrow> string"

definition getJSON :: "env \<Rightarrow> redis \<Rightarrow> string \<Rightarrow> error + json" where
  "getJSON E r key =
     (case rs_get r key of
        Inl e \<Rightarrow> Inl e
      | Inr v \<Rightarrow>
          (case v of
             None \<Rightarrow> Inr JNull
           | Some bytes \<Rightarrow>
               if bytes = [] then Inr JNull
               else (case JSON_parse E bytes of None \<Rightarrow> Inr JNull | Some j \<Rightarrow> Inr j)))"

definition setJSON :: "env \<Rightarrow> redis \<Rightarrow> string \<Rightarrow> json \<Rightarrow> int option \<Rightarrow> error + redis" where
  "setJSON E r key v ttl = (let json = JSON_stringify E v in rs_set r key json ttl)"

definition rs_sadd :: "redis \<Rightarrow> string \<Rightarrow> string \<Rightarrow> error + nat \<times> redis" where
  "rs_sadd r key member = cmd_SADD r key member"

definition rs_smembers :: "redis \<Rightarrow> string \<Rightarrow> error + string list" where
  "rs_smembers r key = cmd_SMEMBERS r key"

section \<open>CacheService\<close>

text \<open>
  A method that issues several commands returns the store it has reached together
  with its result, also when it fails part-way: a command that was sent stays sent.
  The clock does not move inside one method call.
\<close>

definition CACHE_TTL_MEDIUM :: int where
  "CACHE_TTL_MEDIUM = 600"

definition CACHE_TTL_DAY :: int where
  "CACHE_TTL_DAY = 86400"

record CacheOptions =
  opt_ttl :: "int option"
  opt_tenant :: "string option"
  opt_tags :: "string list option"

definition options_ttl :: "CacheOptions option \<Rightarrow> int option" where
  "options_ttl options = (case options of None \<Rightarrow> None | Some opts \<Rightarrow> opt_ttl opts)"

definition options_tenant :: "CacheOptions option \<Rightarrow> string option" where
  "options_tenant options = (case options of None \<Rightarrow> None | Some opts \<Rightarrow> opt_tenant opts)"

definition options_tags :: "CacheOptions option \<Rightarrow> string list option" where
  "options_tags options = (case options of None \<Rightarrow> None | Some opts \<Rightarrow> opt_tags opts)"

text \<open>\<open>if (tenantId)\<close>: an absent and an empty tenant id both leave the key as it is.\<close>

definition generateKey :: "env \<Rightarrow> string \<Rightarrow> string option \<Rightarrow> string" where
  "generateKey E key tenantId =
     (case tenantId of
        None \<Rightarrow> key
      | Some t \<Rightarrow> if t = [] then key else generateTenantCachePrefix E t @ key)"

definition tagKey_of :: "env \<Rightarrow> string \<Rightarrow> string option \<Rightarrow> string" where
  "tagKey_of E tag tenantId = generateKey E (''tag:'' @ tag) tenantId"

definition cache_get :: "env \<Rightarrow> redis \<Rightarrow> string \<Rightarrow> CacheOptions option \<Rightarrow> error + json" where
  "cache_get E r key options =
     (let cacheKey = generateKey E key (options_tenant options)
      in getJSON E r cacheKey)"

fun addToTags :: "env \<Rightarrow> redis \<Rightarrow> string \<Rightarrow> string list \<Rightarrow> string option \<Rightarrow> (error + unit) \<times> redis" where
  "addToTags E r key [] tenantId = (Inr (), r)"
| "addToTags E r key (tag # tags) tenantId =
     (let tagKey = tagKey_of E tag tenantId
      in case rs_sadd r tagKey key of
           Inl e \<Rightarrow> (Inl e, r)
         | Inr (_, r1) \<Rightarrow>
             (case rs_expire r1 tagKey CACHE_TTL_DAY of
                (_, r2) \<Rightarrow> addToTags E r2 key tags tenantId))"

definition cache_set :: "env \<Rightarrow> redis \<Rightarrow> string \<Rightarrow> json \<Rightarrow> CacheOptions option \<Rightarrow> (error + unit) \<times> redis" where
  "cache_set E r key v options =
     (let cacheKey = generateKey E key (options_tenant options);
          ttl = (if truthy_num (options_ttl options) then the (options_ttl options)
                 else CACHE_TTL_MEDIUM)
      in case setJSON E r cacheKey v (Some ttl) of
           Inl e \<Rightarrow> (Inl e, r)
         | Inr r1 \<Rightarrow>
             (case options_tags options of
                None \<Rightarrow> (Inr (), r1)
              | Some tags \<Rightarrow> addToTags E r1 cacheKey tags (options_tenant options)))"

definition invalidateTag :: "env \<Rightarrow> redis \<Rightarrow> string \<Rightarrow> string option \<Rightarrow> (error + nat) \<times> redis" where
  "invalidateTag E r tag tenantId =
     (let tagKey = tagKey_of E tag tenantId
      in case rs_smembers r tagKey of
           Inl e \<Rightarrow> (Inl e, r)
         | Inr keys \<Rightarrow>
             if length keys = 0 then (Inr 0, r)
             else (case rs_del r keys of
                     Inl e \<Rightarrow> (Inl e, r)
                   | Inr (deleted, r1) \<Rightarrow>
                       (case rs_del r1 [tagKey] of
                          Inl e \<Rightarrow> (Inl e, r1)
                        | Inr (_, r2) \<Rightarrow> (Inr deleted, r2))))"

text \<open>
  The factory is a computation with a state of its own (\<open>'w\<close>, for instance the
  counter of the test in the specification) that returns a value or throws.
\<close>

definition getOrSet ::
  "env \<Rightarrow> redis \<Rightarrow> 'w \<Rightarrow> string \<Rightarrow> ('w \<Rightarrow> (error + json) \<times> 'w) \<Rightarrow> CacheOptions option
     \<Rightarrow> (error + json) \<times> redis \<times> 'w" where
  "getOrSet E r w key factory options =
     (case cache_get E r key options of
        Inl e \<Rightarrow> (Inl e, r, w)
      | Inr cached \<Rightarrow>
          if cached \<noteq> JNull then (Inr cached, r, w)
          else (case factory w of
                  (Inl e, w1) \<Rightarrow> (Inl e, r, w1)
                | (Inr v, w1) \<Rightarrow>
                    (case cache_set E r key v options of
                       (Inl e, r1) \<Rightarrow> (Inl e, r1, w1)
                     | (Inr _, r1) \<Rightarrow> (Inr v, r1, w1))))"

definition rememberForever ::
  "env \<Rightarrow> redis \<Rightarrow> 'w \<Rightarrow> string \<Rightarrow> ('w \<Rightarrow> (error + json) \<times> 'w) \<Rightarrow> string option
     \<Rightarrow> (error + json) \<times> redis \<times> 'w" where
  "rememberForever E r w key factory tenantId =
     (case cache_get E r key (Some \<lparr>opt_ttl = None, opt_tenant = tenantId, opt_tags = None\<rparr>) of
        Inl e \<Rightarrow> (Inl e, r, w)
      | Inr cached \<Rightarrow>
          if cached \<noteq> JNull then (Inr cached, r, w)
          else (case factory w of
                  (Inl e, w1) \<Rightarrow> (Inl e, r, w1)
                | (Inr v, w1) \<Rightarrow>
                    (let cacheKey = generateKey E key tenantId
                     in case setJSON E r cacheKey v None of
                          Inl e \<Rightarrow> (Inl e, r, w1)
                        | Inr r1 \<Rightarrow> (Inr v, r1, w1))))"

text \<open>The TTL that \<open>set\<close> applies: \<open>options?.ttl || CACHE_TTL.MEDIUM\<close>.\<close>

definition eff_ttl :: "CacheOptions option \<Rightarrow> int" where
  "eff_ttl options =
     (if truthy_num (options_ttl options) then the (options_ttl options) else CACHE_TTL_MEDIUM)"

text \<open>
  The bookkeeping of a tag: the tag key holds a set that has the member and expires
  one day from now.
\<close>

definition tag_holds :: "redis \<Rightarrow> string \<Rightarrow> string \<Rightarrow> bool" where
  "tag_holds r tk member =
     (case lookup r tk of
        None \<Rightarrow> False
      | Some e \<Rightarrow>
          (case ent_val e of
             RStr _ \<Rightarrow> False
           | RSet ms \<Rightarrow> member \<in> set ms \<and> ent_exp e = Some (now r + 86400000)))"

text \<open>The options \<open>{tags: [tag]}\<close>, with or without a tenant.\<close>

definition tag_options :: "string option \<Rightarrow> string \<Rightarrow> CacheOptions option" where
  "tag_options tenantId tag = Some \<lparr>opt_ttl = None, opt_tenant = tenantId, opt_tags = Some [tag]\<rparr>"

text \<open>
  An entry is covered by a tag when it is absent, or the tag set is live, has the
  entry's key as a member, and does not expire before the entry does.
\<close>

definition covered :: "redis \<Rightarrow> string \<Rightarrow> string \<Rightarrow> bool" where
  "covered r tk k =
     (case lookup r k of
        None \<Rightarrow> True
      | Some e \<Rightarrow>
          (case lookup r tk of
             None \<Rightarrow> False
           | Some te \<Rightarrow>
               (case ent_val te of
                  RStr _ \<Rightarrow> False
                | RSet ms \<Rightarrow>
                    k \<in> set ms \<and>
                    (case ent_exp e of
                       None \<Rightarrow> False
                     | Some x \<Rightarrow>
                         (case ent_exp te of
                            None \<Rightarrow> False
                          | Some y \<Rightarrow> x \<le> y \<and> x \<le> now r + 86400000)))))"

text \<open>An empty store at time 0.\<close>

definition fresh_store :: redis where
  "fresh_store = \<lparr>now = 0, keyspace = Map.empty\<rparr>"

text \<open>A sequence of \<open>getOrSet\<close> calls on one key, each after the given delay.\<close>

fun getOrSet_calls ::
  "env \<Rightarrow> redis \<Rightarrow> 'w \<Rightarrow> string \<Rightarrow> ('w \<Rightarrow> (error + json) \<times> 'w) \<Rightarrow> CacheOptions option
     \<Rightarrow> nat list \<Rightarrow> redis \<times> 'w" where
  "getOrSet_calls E r w key factory options [] = (r, w)"
| "getOrSet_calls E r w key factory options (d # ds) =
     (case getOrSet E (advance d r) w key factory options of
        (_, r1, w1) \<Rightarrow> getOrSet_calls E r1 w1 key factory options ds)"

definition key_expiry :: "redis \<Rightarrow> string \<Rightarrow> nat option" where
  "key_expiry r k = (case lookup r k of None \<Rightarrow> None | Some e \<Rightarrow> ent_exp e)"

subsection \<open>An instance of the environment\<close>

text \<open>
  For running the services on concrete inputs: a printer for JSON values (strings
  of printable characters, integers within 64 bits) and a reader for the literals \<open>null\<close>, \<open>true\<close>, \<open>false\<close> and integer numerals, with the
  tenant prefix \<open>tenant:<id>:\<close>.
\<close>

fun join :: "string \<Rightarrow> string list \<Rightarrow> string" where
  "join sep [] = []"
| "join sep [x] = x"
| "join sep (x # y # ys) = x @ sep @ join sep (y # ys)"

definition quote :: "string \<Rightarrow> string" where
  "quote s =
     [CHR 0x22]
     @ concat (map (\<lambda>c. if c = CHR 0x22 \<or> c = CHR 0x5C then [CHR 0x5C, c] else [c]) s)
     @ [CHR 0x22]"

fun lit_stringify :: "json \<Rightarrow> string" where
  "lit_stringify JNull = ''null''"
| "lit_stringify (JBool b) = (if b then ''true'' else ''false'')"
| "lit_stringify (JNum n) = ll2string n"
| "lit_stringify (JStr s) = quote s"
| "lit_stringify (JArr vs) = ''['' @ join '','' (map lit_stringify vs) @ '']''"
| "lit_stringify (JObj kvs) =
     ''{'' @ join '','' (map (\<lambda>(k, v). quote k @ '':'' @ lit_stringify v) kvs) @ ''}''"

definition lit_parse :: "string \<Rightarrow> json option" where
  "lit_parse s =
     (if s = ''null'' then Some JNull
      else if s = ''true'' then Some (JBool True)
      else if s = ''false'' then Some (JBool False)
      else map_option JNum (string2ll s))"

definition lit_env :: env where
  "lit_env = \<lparr>JSON_parse = lit_parse, JSON_stringify = lit_stringify,
              generateTenantCachePrefix = (\<lambda>t. ''tenant:'' @ t @ '':'')\<rparr>"

section \<open>PrismaService\<close>

text \<open>
  The database behind the Prisma clients: the clients that hold an open connection,
  a journal of the operations issued, and the outcome the database gives to each
  operation (\<open>faults\<close>, by position in the journal; \<open>None\<close> is success). A client
  connects on its first statement, whether or not the statement succeeds.
  \<open>generateSchemaName\<close> comes from a package outside these sources and is a parameter.
\<close>

datatype event = NewClient nat | ExecuteRaw nat string | Disconnect nat

record database =
  next_client :: nat
  connections :: "nat list"
  journal :: "event list"
  faults :: "nat \<Rightarrow> error option"

definition new_PrismaClient :: "database \<Rightarrow> nat \<times> database" where
  "new_PrismaClient w =
     (next_client w,
      w\<lparr>next_client := Suc (next_client w), journal := journal w @ [NewClient (next_client w)]\<rparr>)"

definition executeRawUnsafe :: "nat \<Rightarrow> string \<Rightarrow> database \<Rightarrow> (error + nat) \<times> database" where
  "executeRawUnsafe c sql w =
     (let w' = w\<lparr>journal := journal w @ [ExecuteRaw c sql],
                 connections := List.insert c (connections w)\<rparr>
      in case faults w (length (journal w)) of
           Some e \<Rightarrow> (Inl e, w')
         | None \<Rightarrow> (Inr 0, w'))"

definition disconnect :: "nat \<Rightarrow> database \<Rightarrow> (error + unit) \<times> database" where
  "disconnect c w =
     (let w' = w\<lparr>journal := journal w @ [Disconnect c]\<rparr>
      in case faults w (length (journal w)) of
           Some e \<Rightarrow> (Inl e, w')
         | None \<Rightarrow> (Inr (), w'\<lparr>connections := removeAll c (connections w)\<rparr>))"

definition search_path_sql :: "string \<Rightarrow> string" where
  "search_path_sql schemaName =
     ''SET search_path TO '' @ [CHR 0x22] @ schemaName @ [CHR 0x22] @ '', shared, public''"

text \<open>
  \<open>try { ... } finally { await tenantPrisma.$disconnect() }\<close>: the \<open>finally\<close> block
  runs after a normal and after an exceptional completion of the \<open>try\<close> block, and
  an error thrown by the \<open>finally\<close> block itself replaces that completion.
\<close>

definition withTenant ::
  "(string \<Rightarrow> string) \<Rightarrow> string \<Rightarrow> (nat \<Rightarrow> database \<Rightarrow> (error + 'a) \<times> database) \<Rightarrow> database
     \<Rightarrow> (error + 'a) \<times> database" where
  "withTenant generateSchemaName tenantId callback w =
     (let schemaName = generateSchemaName tenantId
      in case new_PrismaClient w of
           (tenantPrisma, w1) \<Rightarrow>
             (case (case executeRawUnsafe tenantPrisma (search_path_sql schemaName) w1 of
                      (Inl e, w2) \<Rightarrow> (Inl e, w2)
                    | (Inr _, w2) \<Rightarrow> callback tenantPrisma w2) of
                (res, w3) \<Rightarrow>
                  (case disconnect tenantPrisma w3 of
                     (Inl e, w4) \<Rightarrow> (Inl e, w4)
                   | (Inr _, w4) \<Rightarrow> (res, w4))))"

text \<open>A database with no client, on which every operation succeeds; a callback that throws.\<close>

definition idle_database :: database where
  "idle_database = \<lparr>next_client = 0, connections = [], journal = [], faults = (\<lambda>_. None)\<rparr>"

definition failing_callback :: "nat \<Rightarrow> database \<Rightarrow> (error + unit) \<times> database" where
  "failing_callback c w = (Inl (DbError ''boom''), w)"

section \<open>Basic facts about the store\<close>

lemma now_store [simp]: "now (store r k e) = now r"
  by (simp add: store_def)

lemma now_remove [simp]: "now (remove r k) = now r"
  by (simp add: remove_def)

lemma now_advance [simp]: "now (advance d r) = now r + d"
  by (simp add: advance_def)

lemma keyspace_advance [simp]: "keyspace (advance d r) = keyspace r"
  by (simp add: advance_def)

lemma lookup_store [simp]:
  "lookup (store r k e) k' =
     (if k' = k then (if expired (now r) e then None else Some e) else lookup r k')"
  by (simp add: lookup_def store_def split: option.splits)

lemma lookup_remove [simp]:
  "lookup (remove r k) k' = (if k' = k then None else lookup r k')"
  by (simp add: lookup_def remove_def split: option.splits)

lemma lookup_fresh_store [simp]: "lookup fresh_store k = None"
  by (simp add: fresh_store_def lookup_def)

lemma now_fresh_store [simp]: "now fresh_store = 0"
  by (simp add: fresh_store_def)

subsection \<open>Printing and reading decimal integers\<close>

lemma decimal_not_Nil [simp]: "decimal n \<noteq> []"
  by (subst decimal.simps) simp

lemma is_digit_char_of: "(d::nat) < 10 \<Longrightarrow> is_digit (char_of (48 + d))"
  by (simp add: is_digit_def)

lemma digit_val_char_of: "(d::nat) < 10 \<Longrightarrow> digit_val (char_of (48 + d)) = d"
  by (simp add: digit_val_def)

lemma decimal_digits: "list_all is_digit (decimal n)"
proof (induction n rule: decimal.induct)
  case (1 n)
  show ?case
  proof (cases "n < 10")
    case True
    then show ?thesis by (subst decimal.simps) (simp add: is_digit_char_of)
  next
    case False
    with 1 show ?thesis by (subst decimal.simps) (simp add: is_digit_char_of)
  qed
qed

lemma nat_of_digits_snoc: "nat_of_digits (ds @ [c]) = 10 * nat_of_digits ds + digit_val c"
  by (simp add: nat_of_digits_def)

lemma nat_of_digits_decimal: "nat_of_digits (decimal n) = n"
proof (induction n rule: decimal.induct)
  case (1 n)
  show ?case
  proof (cases "n < 10")
    case True
    then show ?thesis
      by (subst decimal.simps) (simp add: nat_of_digits_def digit_val_char_of)
  next
    case False
    with 1 show ?thesis
      by (subst decimal.simps) (simp add: nat_of_digits_snoc digit_val_char_of)
  qed
qed

lemma hd_decimal_minus: "hd (decimal n) \<noteq> CHR ''-''"
  using decimal_digits [of n] decimal_not_Nil [of n]
  by (cases "decimal n") (auto simp: is_digit_def)

lemma hd_decimal_zero: "0 < n \<Longrightarrow> hd (decimal n) \<noteq> CHR ''0''"
proof (induction n rule: decimal.induct)
  case (1 n)
  show ?case
  proof (cases "n < 10")
    case True
    with 1(2) show ?thesis
      by (subst decimal.simps) (simp add: char_of_eq_iff take_bit_eq_mod)
  next
    case False
    then have "0 < n div 10" by simp
    with 1(1) False have "hd (decimal (n div 10)) \<noteq> CHR ''0''" by simp
    with False show ?thesis by (subst decimal.simps) simp
  qed
qed

lemma decimal_zero: "decimal 0 = ''0''"
  by code_simp

lemma string2ll_ll2string:
  assumes "- (2 ^ 63) \<le> i" "i < 2 ^ 63"
  shows "string2ll (ll2string i) = Some i"
proof -
  consider "i = 0" | "0 < i" | "i < 0" by linarith
  then show ?thesis
  proof cases
    case 1
    then show ?thesis by (simp add: string2ll_def ll2string_def decimal_zero)
  next
    case 2
    then have "hd (decimal (nat i)) \<noteq> CHR ''0''" by (simp add: hd_decimal_zero)
    moreover from this have "decimal (nat i) \<noteq> ''0''" by auto
    ultimately show ?thesis using 2 assms
      by (simp add: string2ll_def ll2string_def Let_def hd_decimal_minus decimal_digits
            nat_of_digits_decimal)
  next
    case 3
    then have "hd (decimal (nat (- i))) \<noteq> CHR ''0''" by (simp add: hd_decimal_zero)
    then show ?thesis using 3 assms
      by (simp add: string2ll_def ll2string_def Let_def decimal_digits nat_of_digits_decimal)
  qed
qed

section \<open>The distributed lock\<close>

text \<open>
  Claim C1. When \<open>acquireLock\<close> on a key succeeds, a second \<open>acquireLock\<close> on the
  same key with the same TTL, issued \<open>d\<close> milliseconds later with nothing but time
  passing in between, returns false and leaves the store as it is while the TTL has
  not elapsed (\<open>d \<le> ttl * 1000\<close>), and returns true once the TTL has elapsed
  (\<open>ttl * 1000 < d\<close>). The TTL is the one given, or 30 seconds when none is given.
\<close>

theorem acquireLock_single_owner:
  assumes "acquireLock r k ttl = Inr (True, r1)"
  shows "(d \<le> nat (lock_ttl ttl) * 1000 \<longrightarrow>
            acquireLock (advance d r1) k ttl = Inr (False, advance d r1))
       \<and> (nat (lock_ttl ttl) * 1000 < d \<longrightarrow>
            (\<exists>r2. acquireLock (advance d r1) k ttl = Inr (True, r2)))"
  using assms
  by (auto simp: acquireLock_def cmd_SET_EX_NX_def Let_def lookup_def store_def
        advance_def expired_def deadline_def
      split: if_splits option.splits)

theorem acquireLock_single_owner_witness:
  "\<exists>r1. acquireLock fresh_store ''l'' (Some 5) = Inr (True, r1)
     \<and> acquireLock (advance 4000 r1) ''l'' (Some 5) = Inr (False, advance 4000 r1)
     \<and> (\<exists>r2. acquireLock (advance 6000 r1) ''l'' (Some 5) = Inr (True, r2))"
proof -
  obtain r1 where h: "acquireLock fresh_store ''l'' (Some 5) = Inr (True, r1)"
    by (simp add: acquireLock_def cmd_SET_EX_NX_def lock_ttl_def)
  have t: "nat (lock_ttl (Some 5)) * 1000 = 5000" by (simp add: lock_ttl_def)
  from acquireLock_single_owner [OF h, of 4000] acquireLock_single_owner [OF h, of 6000] h t
  show ?thesis by simp
qed

text \<open>
  Claim C9. \<open>releaseLock\<close> never fails and never looks at the value stored under the
  lock key: whatever the store holds, the lock key is absent afterwards, every other
  key is as before, and the result is true exactly when the lock key was present
  (live) before the call.
\<close>

theorem releaseLock_unconditional:
  "\<exists>r'. releaseLock r k = Inr (lookup r (lockKey k) \<noteq> None, r')
     \<and> lookup r' (lockKey k) = None
     \<and> (\<forall>k'. k' \<noteq> lockKey k \<longrightarrow> lookup r' k' = lookup r k')"
  by (auto simp: releaseLock_def rs_del_def cmd_DEL_def split: option.splits)

text \<open>
  The witness is the scenario of the design note: a first owner's lock expires, a
  second owner acquires the key, and the first owner's release deletes it.
\<close>

theorem releaseLock_unconditional_witness:
  "\<exists>rA rB r'.
      acquireLock fresh_store ''l'' (Some 5) = Inr (True, rA)
    \<and> acquireLock (advance 6000 rA) ''l'' (Some 5) = Inr (True, rB)
    \<and> releaseLock rB ''l'' = Inr (True, r')
    \<and> lookup r' (lockKey ''l'') = None"
proof -
  obtain rA where a: "acquireLock fresh_store ''l'' (Some 5) = Inr (True, rA)"
    by (simp add: acquireLock_def cmd_SET_EX_NX_def lock_ttl_def)
  have "\<exists>rB. acquireLock (advance 6000 rA) ''l'' (Some 5) = Inr (True, rB)
          \<and> lookup rB (lockKey ''l'') \<noteq> None"
    using a
    by (auto simp: acquireLock_def cmd_SET_EX_NX_def lookup_def store_def advance_def
          expired_def deadline_def lock_ttl_def fresh_store_def
        split: option.splits if_splits)
  then obtain rB where b: "acquireLock (advance 6000 rA) ''l'' (Some 5) = Inr (True, rB)"
    and live: "lookup rB (lockKey ''l'') \<noteq> None"
    by blast
  from releaseLock_unconditional [of rB "''l''"] live a b show ?thesis
    by auto
qed

section \<open>The fixed-window rate limiter\<close>

lemma lookup_advance_None:
  "lookup r k = None \<Longrightarrow> lookup (advance d r) k = None"
  by (auto simp: lookup_def expired_def split: option.splits if_splits)

lemma cmd_INCR_count:
  "cmd_INCR r (RATE_LIMIT key) = Inr (c, r1) \<Longrightarrow> c = window_count r key + 1"
  by (auto simp: cmd_INCR_def window_count_def split: option.splits rvalue.splits if_splits)

lemma cmd_INCR_range:
  "cmd_INCR r k = Inr (c, r1) \<Longrightarrow> - (2 ^ 63) < c \<and> c < 2 ^ 63"
  by (auto simp: cmd_INCR_def string2ll_def Let_def split: option.splits rvalue.splits if_splits)

lemma cmd_INCR_now: "cmd_INCR r k = Inr (c, r1) \<Longrightarrow> now r1 = now r"
  by (auto simp: cmd_INCR_def split: option.splits rvalue.splits if_splits)

lemma cmd_INCR_lookup:
  "cmd_INCR r k = Inr (c, r1) \<Longrightarrow>
     lookup r1 k = Some \<lparr>ent_val = RStr (ll2string c),
                        ent_exp = (case lookup r k of None \<Rightarrow> None | Some e \<Rightarrow> ent_exp e)\<rparr>"
  by (auto simp: cmd_INCR_def expired_def lookup_def store_def split: option.splits rvalue.splits if_splits)

lemma checkRateLimit_unfold:
  assumes "checkRateLimit r key limit window = Inr (res, r')"
  obtains c r1 where "cmd_INCR r (RATE_LIMIT key) = Inr (c, r1)"
    and "r' = (if c = 1 then snd (cmd_EXPIRE r1 (RATE_LIMIT key) window) else r1)"
    and "allowed res = (c \<le> limit)" and "remaining res = max 0 (limit - c)"
    and "resetAt res = int (now r') + cmd_TTL r' (RATE_LIMIT key) * 1000"
  using assms
  by (auto simp: checkRateLimit_def rs_incr_def rs_expire_def rs_ttl_def Let_def
      split: sum.splits prod.splits if_splits)

lemma cmd_EXPIRE_now: "now (snd (cmd_EXPIRE r k s)) = now r"
  by (simp add: cmd_EXPIRE_def split: option.splits)

lemma checkRateLimit_verdict:
  assumes "checkRateLimit r key limit window = Inr (res, r')"
  shows "allowed res = (window_count r key + 1 \<le> limit)"
    and "remaining res = max 0 (limit - (window_count r key + 1))"
    and "now r' = now r"
proof -
  from assms obtain c r1 where i: "cmd_INCR r (RATE_LIMIT key) = Inr (c, r1)"
    and r': "r' = (if c = 1 then snd (cmd_EXPIRE r1 (RATE_LIMIT key) window) else r1)"
    and a: "allowed res = (c \<le> limit)" "remaining res = max 0 (limit - c)"
    by (rule checkRateLimit_unfold)
  from i have c: "c = window_count r key + 1" by (rule cmd_INCR_count)
  from a c show "allowed res = (window_count r key + 1 \<le> limit)"
    and "remaining res = max 0 (limit - (window_count r key + 1))" by simp_all
  from i r' show "now r' = now r" by (simp add: cmd_INCR_now cmd_EXPIRE_now)
qed

lemma window_count_after:
  assumes "cmd_INCR r (RATE_LIMIT key) = Inr (c, r1)"
  shows "window_count r1 key = c"
  using cmd_INCR_lookup [OF assms] cmd_INCR_range [OF assms]
  by (simp add: window_count_def string2ll_ll2string)

lemma checkRateLimit_window:
  assumes "checkRateLimit r key limit window = Inr (res, r')"
  shows "window_count r key = 0 \<Longrightarrow> 0 < window \<Longrightarrow>
           window_expiry r' key = Some (now r + nat window * 1000) \<and> window_count r' key = 1"
    and "window_count r key \<noteq> 0 \<Longrightarrow>
           window_expiry r' key = window_expiry r key \<and> window_count r' key = window_count r key + 1"
proof -
  from assms obtain c r1 where i: "cmd_INCR r (RATE_LIMIT key) = Inr (c, r1)"
    and r': "r' = (if c = 1 then snd (cmd_EXPIRE r1 (RATE_LIMIT key) window) else r1)"
    by (rule checkRateLimit_unfold)
  from i have c: "c = window_count r key + 1" by (rule cmd_INCR_count)
  note l = cmd_INCR_lookup [OF i] and n = cmd_INCR_now [OF i] and rg = cmd_INCR_range [OF i]
  show "window_count r key = 0 \<Longrightarrow> 0 < window \<Longrightarrow>
           window_expiry r' key = Some (now r + nat window * 1000) \<and> window_count r' key = 1"
    using c r' l n
    by (simp add: cmd_EXPIRE_def window_expiry_def window_count_def deadline_def expired_def
          string2ll_ll2string)
  show "window_count r key \<noteq> 0 \<Longrightarrow>
           window_expiry r' key = window_expiry r key \<and> window_count r' key = window_count r key + 1"
    using c r' l rg
    by (simp add: window_expiry_def window_count_after [OF i])
qed

lemma window_advance_live:
  assumes "window_expiry r key = Some E" "now r + d \<le> E"
  shows "window_count (advance d r) key = window_count r key"
    and "window_expiry (advance d r) key = Some E"
  using assms
  by (auto simp: window_expiry_def window_count_def lookup_def expired_def
      split: option.splits if_splits)

lemma window_advance_dead:
  assumes "window_expiry r key = Some E" "E < now r + d"
  shows "lookup (advance d r) (RATE_LIMIT key) = None"
  using assms
  by (auto simp: window_expiry_def lookup_def expired_def split: option.splits if_splits)

lemma checkRateLimit_succeeds:
  assumes "window_count r key \<noteq> 0 \<or> lookup r (RATE_LIMIT key) = None"
    and "window_count r key \<noteq> 2 ^ 63 - 1"
  shows "\<exists>res r'. checkRateLimit r key limit window = Inr (res, r')"
  using assms
  by (auto simp: checkRateLimit_def rs_incr_def cmd_INCR_def window_count_def Let_def
      split: option.splits rvalue.splits)

lemma fresh_step:
  assumes "lookup r (RATE_LIMIT key) = None" "0 < window"
  shows "\<exists>res r'. checkRateLimit r key limit window = Inr (res, r')
           \<and> allowed res = (1 \<le> limit) \<and> remaining res = max 0 (limit - 1)
           \<and> window_expiry r' key = Some (now r + nat window * 1000)
           \<and> window_count r' key = 1 \<and> now r' = now r"
proof -
  from assms(1) have z: "window_count r key = 0" by (simp add: window_count_def)
  with assms(1) obtain res r' where h: "checkRateLimit r key limit window = Inr (res, r')"
    using checkRateLimit_succeeds [of r key limit window] by auto
  from checkRateLimit_verdict [OF h] checkRateLimit_window(1) [OF h z assms(2)] z h
  show ?thesis by simp
qed

lemma live_step:
  assumes "window_expiry r key = Some E" "1 \<le> window_count r key"
    and "window_count r key < 2 ^ 63 - 1" "now r + d \<le> E"
  shows "\<exists>res r'. checkRateLimit (advance d r) key limit window = Inr (res, r')
           \<and> allowed res = (window_count r key + 1 \<le> limit)
           \<and> remaining res = max 0 (limit - (window_count r key + 1))
           \<and> window_expiry r' key = Some E
           \<and> window_count r' key = window_count r key + 1 \<and> now r' = now r + d"
proof -
  note a = window_advance_live [OF assms(1,4)]
  from a(1) assms(2,3) obtain res r'
    where h: "checkRateLimit (advance d r) key limit window = Inr (res, r')"
    using checkRateLimit_succeeds [of "advance d r" key limit window] by auto
  from a(1) assms(2) have nz: "window_count (advance d r) key \<noteq> 0" by simp
  from checkRateLimit_verdict [OF h] checkRateLimit_window(2) [OF h nz] a h
  show ?thesis by simp
qed

lemma rate_calls_now: "rate_calls r key cs = Inr r' \<Longrightarrow> now r \<le> now r'"
proof (induction cs arbitrary: r)
  case Nil
  then show ?case by simp
next
  case (Cons c cs)
  obtain d limit window where c: "c = (d, limit, window)" by (cases c)
  from Cons.prems c obtain res r1
    where h: "checkRateLimit (advance d r) key limit window = Inr (res, r1)"
      and rest: "rate_calls r1 key cs = Inr r'"
    by (auto split: sum.splits)
  from checkRateLimit_verdict(3) [OF h] Cons.IH [OF rest] show ?case by simp
qed

lemma rate_calls_window:
  assumes "1 \<le> window_count r key" "window_expiry r key = Some E"
    and "rate_calls r key cs = Inr r'" "now r' \<le> E"
  shows "window_expiry r' key = Some E \<and> window_count r' key = window_count r key + int (length cs)"
  using assms
proof (induction cs arbitrary: r)
  case Nil
  then show ?case by simp
next
  case (Cons c cs)
  obtain d limit window where c: "c = (d, limit, window)" by (cases c)
  from Cons.prems(3) c obtain res r1
    where h: "checkRateLimit (advance d r) key limit window = Inr (res, r1)"
      and rest: "rate_calls r1 key cs = Inr r'"
    by (auto split: sum.splits)
  from checkRateLimit_verdict(3) [OF h] rate_calls_now [OF rest] Cons.prems(4)
  have le: "now r + d \<le> E" by simp
  note a = window_advance_live [OF Cons.prems(2) le]
  from a(1) Cons.prems(1) have nz: "window_count (advance d r) key \<noteq> 0" by simp
  from checkRateLimit_window(2) [OF h nz] a
  have e1: "window_expiry r1 key = Some E" and c1: "window_count r1 key = window_count r key + 1"
    by simp_all
  from c1 Cons.prems(1) have "1 \<le> window_count r1 key" by simp
  from Cons.IH [OF this e1 rest Cons.prems(4)] c1 show ?case by simp
qed

text \<open>
  Claim C2. Every successful \<open>checkRateLimit\<close> reports \<open>allowed = (count \<le> limit)\<close>
  and \<open>remaining = max 0 (limit - count)\<close>, where \<open>count\<close> is the counter after the
  increment (the counter before the call, an absent key counting as 0, plus one), and
  for a positive window that count is what the store holds afterwards. Starting from
  an absent counter key, five calls of \<open>checkRateLimit key 3 60\<close>, the first four
  within the 60 seconds of the window (\<open>d1 + d2 + d3 \<le> 60000\<close> milliseconds) and the
  fifth after the window has elapsed, all succeed and report allowed = true, true,
  true, false, true; the counter is 4 after the fourth call and is back to 1, with 2
  remaining, after the fifth.
\<close>

theorem checkRateLimit_fixed_window:
  "(\<forall>res r'. checkRateLimit r key limit window = Inr (res, r') \<longrightarrow>
       allowed res = (window_count r key + 1 \<le> limit)
     \<and> remaining res = max 0 (limit - (window_count r key + 1))
     \<and> (0 < window \<longrightarrow> window_count r' key = window_count r key + 1))
 \<and> (lookup r (RATE_LIMIT key) = None \<and> d1 + d2 + d3 \<le> 60000 \<and> 60000 < d1 + d2 + d3 + d4 \<longrightarrow>
       (\<exists>res1 r1 res2 r2 res3 r3 res4 r4 res5 r5.
          checkRateLimit r key 3 60 = Inr (res1, r1)
        \<and> checkRateLimit (advance d1 r1) key 3 60 = Inr (res2, r2)
        \<and> checkRateLimit (advance d2 r2) key 3 60 = Inr (res3, r3)
        \<and> checkRateLimit (advance d3 r3) key 3 60 = Inr (res4, r4)
        \<and> checkRateLimit (advance d4 r4) key 3 60 = Inr (res5, r5)
        \<and> allowed res1 \<and> allowed res2 \<and> allowed res3 \<and> \<not> allowed res4 \<and> allowed res5
        \<and> window_count r4 key = 4 \<and> window_count r5 key = 1 \<and> remaining res5 = 2))"
proof (intro conjI allI impI)
  fix res r'
  assume h: "checkRateLimit r key limit window = Inr (res, r')"
  from checkRateLimit_verdict [OF h]
  show "allowed res = (window_count r key + 1 \<le> limit)"
    and "remaining res = max 0 (limit - (window_count r key + 1))"
    by simp_all
  assume w: "0 < window"
  show "window_count r' key = window_count r key + 1"
  proof (cases "window_count r key = 0")
    case True
    from checkRateLimit_window(1) [OF h True w] True show ?thesis by simp
  next
    case False
    from checkRateLimit_window(2) [OF h False] show ?thesis by simp
  qed
next
  assume a: "lookup r (RATE_LIMIT key) = None \<and> d1 + d2 + d3 \<le> 60000 \<and> 60000 < d1 + d2 + d3 + d4"
  let ?E = "now r + 60000"
  from a fresh_step [of r key 60 3] obtain res1 r1
    where c1: "checkRateLimit r key 3 60 = Inr (res1, r1)" and a1: "allowed res1"
      and e1: "window_expiry r1 key = Some ?E" and n1: "window_count r1 key = 1"
      and t1: "now r1 = now r"
    by auto
  from a t1 have le1: "now r1 + d1 \<le> ?E" by simp
  from live_step [OF e1 _ _ le1, of 3 60] n1 obtain res2 r2
    where c2: "checkRateLimit (advance d1 r1) key 3 60 = Inr (res2, r2)" and a2: "allowed res2"
      and e2: "window_expiry r2 key = Some ?E" and n2: "window_count r2 key = 2"
      and t2: "now r2 = now r1 + d1"
    by auto
  from a t1 t2 have le2: "now r2 + d2 \<le> ?E" by simp
  from live_step [OF e2 _ _ le2, of 3 60] n2 obtain res3 r3
    where c3: "checkRateLimit (advance d2 r2) key 3 60 = Inr (res3, r3)" and a3: "allowed res3"
      and e3: "window_expiry r3 key = Some ?E" and n3: "window_count r3 key = 3"
      and t3: "now r3 = now r2 + d2"
    by auto
  from a t1 t2 t3 have le3: "now r3 + d3 \<le> ?E" by simp
  from live_step [OF e3 _ _ le3, of 3 60] n3 obtain res4 r4
    where c4: "checkRateLimit (advance d3 r3) key 3 60 = Inr (res4, r4)" and a4: "\<not> allowed res4"
      and e4: "window_expiry r4 key = Some ?E" and n4: "window_count r4 key = 4"
      and t4: "now r4 = now r3 + d3"
    by auto
  from a t1 t2 t3 t4 have "?E < now r4 + d4" by simp
  from window_advance_dead [OF e4 this]
  have "lookup (advance d4 r4) (RATE_LIMIT key) = None" .
  from fresh_step [OF this, of 60 3] obtain res5 r5
    where c5: "checkRateLimit (advance d4 r4) key 3 60 = Inr (res5, r5)" and a5: "allowed res5"
      and n5: "window_count r5 key = 1" and m5: "remaining res5 = 2"
    by auto
  from c1 c2 c3 c4 c5 a1 a2 a3 a4 a5 n4 n5 m5
  show "\<exists>res1 r1 res2 r2 res3 r3 res4 r4 res5 r5.
          checkRateLimit r key 3 60 = Inr (res1, r1)
        \<and> checkRateLimit (advance d1 r1) key 3 60 = Inr (res2, r2)
        \<and> checkRateLimit (advance d2 r2) key 3 60 = Inr (res3, r3)
        \<and> checkRateLimit (advance d3 r3) key 3 60 = Inr (res4, r4)
        \<and> checkRateLimit (advance d4 r4) key 3 60 = Inr (res5, r5)
        \<and> allowed res1 \<and> allowed res2 \<and> allowed res3 \<and> \<not> allowed res4 \<and> allowed res5
        \<and> window_count r4 key = 4 \<and> window_count r5 key = 1 \<and> remaining res5 = 2"
    apply (intro exI conjI)
    apply assumption+
    done
qed

theorem checkRateLimit_fixed_window_witness:
  "\<exists>res1 r1 res2 r2 res3 r3 res4 r4 res5 r5.
      checkRateLimit \<lparr>now = 0, keyspace = Map.empty\<rparr> ''x'' 3 60 = Inr (res1, r1)
    \<and> checkRateLimit (advance 1000 r1) ''x'' 3 60 = Inr (res2, r2)
    \<and> checkRateLimit (advance 1000 r2) ''x'' 3 60 = Inr (res3, r3)
    \<and> checkRateLimit (advance 1000 r3) ''x'' 3 60 = Inr (res4, r4)
    \<and> checkRateLimit (advance 60000 r4) ''x'' 3 60 = Inr (res5, r5)
    \<and> allowed res1 \<and> allowed res2 \<and> allowed res3 \<and> \<not> allowed res4 \<and> allowed res5
    \<and> window_count r4 ''x'' = 4 \<and> window_count r5 ''x'' = 1 \<and> remaining res5 = 2
    \<and> window_count r1 ''x'' = 1 \<and> remaining res1 = 2"
proof -
  let ?r = "\<lparr>now = 0, keyspace = Map.empty\<rparr>"
  have fresh: "lookup ?r (RATE_LIMIT ''x'') = None" by (simp add: lookup_def)
  then have z: "window_count ?r ''x'' = 0" by (simp add: window_count_def)
  note t = checkRateLimit_fixed_window [of ?r "''x''" 3 60 1000 1000 1000 60000]
  from fresh
  have pre: "lookup ?r (RATE_LIMIT ''x'') = None \<and> (1000::nat) + 1000 + 1000 \<le> 60000
      \<and> (60000::nat) < 1000 + 1000 + 1000 + 60000"
    by simp
  from t [THEN conjunct2, THEN mp, OF pre] obtain res1 r1 res2 r2 res3 r3 res4 r4 res5 r5
    where s: "checkRateLimit ?r ''x'' 3 60 = Inr (res1, r1)"
      "checkRateLimit (advance 1000 r1) ''x'' 3 60 = Inr (res2, r2)"
      "checkRateLimit (advance 1000 r2) ''x'' 3 60 = Inr (res3, r3)"
      "checkRateLimit (advance 1000 r3) ''x'' 3 60 = Inr (res4, r4)"
      "checkRateLimit (advance 60000 r4) ''x'' 3 60 = Inr (res5, r5)"
      "allowed res1" "allowed res2" "allowed res3" "\<not> allowed res4" "allowed res5"
      "window_count r4 ''x'' = 4" "window_count r5 ''x'' = 1" "remaining res5 = 2"
    by (elim exE conjE) (rule that)
  from t [THEN conjunct1, rule_format, OF s(1)] z
  have g: "window_count r1 ''x'' = 1" "remaining res1 = 2" by simp_all
  from s g show ?thesis
    apply (intro exI conjI)
    apply assumption+
    done
qed

text \<open>
  Claim C3. A successful \<open>checkRateLimit\<close> sets the expiry of the counter key to
  \<open>window\<close> seconds from now exactly when the increment takes the counter from 0
  (an absent key included) to 1; otherwise it leaves the expiry as it found it.
  Hence, when a window is in progress (counter at least 1, expiry instant \<open>E\<close>), any
  sequence of calls on the key that ends no later than \<open>E\<close> leaves the expiry at \<open>E\<close>.
\<close>

theorem checkRateLimit_window_armed_once:
  "(\<forall>res r'. checkRateLimit r key limit window = Inr (res, r') \<longrightarrow>
       (window_count r key = 0 \<and> 0 < window \<longrightarrow>
          window_expiry r' key = Some (now r + nat window * 1000))
     \<and> (window_count r key \<noteq> 0 \<longrightarrow> window_expiry r' key = window_expiry r key))
 \<and> (\<forall>E r'. 1 \<le> window_count r key \<and> window_expiry r key = Some E
       \<and> rate_calls r key cs = Inr r' \<and> now r' \<le> E \<longrightarrow>
       window_expiry r' key = Some E)"
  using checkRateLimit_window rate_calls_window by blast

theorem checkRateLimit_window_armed_once_witness:
  "\<exists>res1 r1 r'.
      checkRateLimit \<lparr>now = 0, keyspace = Map.empty\<rparr> ''x'' 3 60 = Inr (res1, r1)
    \<and> window_expiry r1 ''x'' = Some 60000
    \<and> rate_calls r1 ''x'' [(1000, 3, 60), (2000, 3, 60)] = Inr r'
    \<and> now r' = 3000
    \<and> window_expiry r' ''x'' = Some 60000"
proof -
  let ?r = "\<lparr>now = 0, keyspace = Map.empty\<rparr>"
  have fresh: "lookup ?r (RATE_LIMIT ''x'') = None" by (simp add: lookup_def)
  then have z: "window_count ?r ''x'' = 0" by (simp add: window_count_def)
  from fresh_step [OF fresh, of 60 3] obtain res1 r1
    where c1: "checkRateLimit ?r ''x'' 3 60 = Inr (res1, r1)"
      and n1: "window_count r1 ''x'' = 1" and t1: "now r1 = 0"
    by auto
  from checkRateLimit_window_armed_once [of ?r "''x''" 3 60, THEN conjunct1, rule_format, OF c1] z
  have e1: "window_expiry r1 ''x'' = Some 60000" by simp
  from t1 have le1: "now r1 + 1000 \<le> 60000" by simp
  from live_step [OF e1 _ _ le1, of 3 60] n1 t1 obtain res2 r2
    where c2: "checkRateLimit (advance 1000 r1) ''x'' 3 60 = Inr (res2, r2)"
      and e2: "window_expiry r2 ''x'' = Some 60000" and n2: "window_count r2 ''x'' = 2"
      and t2: "now r2 = 1000"
    by auto
  from t2 have le2: "now r2 + 2000 \<le> 60000" by simp
  from live_step [OF e2 _ _ le2, of 3 60] n2 t2 obtain res3 r3
    where c3: "checkRateLimit (advance 2000 r2) ''x'' 3 60 = Inr (res3, r3)"
      and t3: "now r3 = 3000"
    by auto
  from c2 c3 have run: "rate_calls r1 ''x'' [(1000, 3, 60), (2000, 3, 60)] = Inr r3" by simp
  from n1 e1 run t3
  have pre: "1 \<le> window_count r1 ''x'' \<and> window_expiry r1 ''x'' = Some 60000
      \<and> rate_calls r1 ''x'' [(1000, 3, 60), (2000, 3, 60)] = Inr r3 \<and> now r3 \<le> 60000"
    by simp
  from checkRateLimit_window_armed_once [of r1 "''x''" 3 60 "[(1000, 3, 60), (2000, 3, 60)]",
      THEN conjunct2, rule_format, OF pre]
  have e3: "window_expiry r3 ''x'' = Some 60000" .
  from c1 e1 run t3 e3 show ?thesis
    apply (intro exI conjI)
    apply assumption+
    done
qed

section \<open>The tagged cache layer\<close>

subsection \<open>Running the services on concrete stores\<close>

lemmas run_defs =
  cache_set_def cache_get_def getJSON_def setJSON_def rs_get_def rs_set_def rs_sadd_def
  rs_expire_def rs_smembers_def rs_del_def cmd_GET_def cmd_SETEX_def cmd_SET_def cmd_SADD_def
  cmd_EXPIRE_def cmd_SMEMBERS_def cmd_DEL_def options_ttl_def options_tenant_def
  options_tags_def truthy_num_def generateKey_def tagKey_of_def CACHE_TTL_MEDIUM_def
  CACHE_TTL_DAY_def deadline_def expired_def lit_env_def Let_def

subsection \<open>Tags and stored entries\<close>

lemma lookup_live: "lookup r k = Some e \<Longrightarrow> \<not> expired (now r) e"
  by (auto simp: lookup_def split: option.splits if_splits)

lemma cmd_SADD_now: "cmd_SADD r k m = Inr (n, r1) \<Longrightarrow> now r1 = now r"
  by (auto simp: cmd_SADD_def split: option.splits rvalue.splits if_splits)

lemma cmd_SADD_other:
  "cmd_SADD r k m = Inr (n, r1) \<Longrightarrow> k' \<noteq> k \<Longrightarrow> lookup r1 k' = lookup r k'"
  by (auto simp: cmd_SADD_def split: option.splits rvalue.splits if_splits)

lemma cmd_SADD_not_string:
  "cmd_SADD r k m = Inr (n, r1) \<Longrightarrow> lookup r k = Some e \<Longrightarrow> ent_val e = RStr s \<Longrightarrow> False"
  by (auto simp: cmd_SADD_def split: option.splits rvalue.splits if_splits)

lemma cmd_SADD_member:
  "cmd_SADD r k m = Inr (n, r1) \<Longrightarrow>
     \<exists>e ms. lookup r1 k = Some e \<and> ent_val e = RSet ms \<and> m \<in> set ms"
  by (auto simp: cmd_SADD_def expired_def dest: lookup_live split: option.splits rvalue.splits if_splits)

lemma cmd_SADD_keeps_members:
  "cmd_SADD r k m = Inr (n, r1) \<Longrightarrow> lookup r k = Some e \<Longrightarrow> ent_val e = RSet ms \<Longrightarrow>
     \<exists>e' ms'. lookup r1 k = Some e' \<and> ent_val e' = RSet ms' \<and> set ms \<subseteq> set ms'
        \<and> ent_exp e' = ent_exp e"
  by (auto simp: cmd_SADD_def lookup_def store_def expired_def split: option.splits rvalue.splits if_splits)

lemma expire_day:
  "lookup r k = Some e \<Longrightarrow>
     rs_expire r k CACHE_TTL_DAY
       = (True, store r k (e\<lparr>ent_exp := Some (now r + 86400000)\<rparr>))"
  by (simp add: rs_expire_def cmd_EXPIRE_def CACHE_TTL_DAY_def deadline_def)

text \<open>One round of the loop of \<open>addToTags\<close>.\<close>

lemma addToTags_Cons_ok:
  assumes "addToTags E r key (tag # tags) tenantId = (Inr (), r')"
  obtains n r1 e where "cmd_SADD r (tagKey_of E tag tenantId) key = Inr (n, r1)"
    and "lookup r1 (tagKey_of E tag tenantId) = Some e"
    and "addToTags E (store r1 (tagKey_of E tag tenantId) (e\<lparr>ent_exp := Some (now r + 86400000)\<rparr>))
           key tags tenantId = (Inr (), r')"
proof -
  let ?tk = "tagKey_of E tag tenantId"
  from assms obtain n r1 where s: "cmd_SADD r ?tk key = Inr (n, r1)"
    by (auto simp: rs_sadd_def Let_def split: sum.splits prod.splits)
  from cmd_SADD_member [OF s] obtain e where l: "lookup r1 ?tk = Some e" by blast
  from assms s l cmd_SADD_now [OF s]
  have "addToTags E (store r1 ?tk (e\<lparr>ent_exp := Some (now r + 86400000)\<rparr>)) key tags tenantId = (Inr (), r')"
    by (simp add: rs_sadd_def Let_def expire_day)
  with s l show thesis by (rule that)
qed

lemma addToTags_now: "now (snd (addToTags E r key tags tenantId)) = now r"
proof (induction tags arbitrary: r)
  case Nil
  then show ?case by simp
next
  case (Cons tag tags)
  show ?case
    by (auto simp: rs_sadd_def rs_expire_def cmd_EXPIRE_def Let_def Cons.IH
        dest: cmd_SADD_now
        split: sum.splits prod.splits option.splits)
qed

lemma addToTags_keeps_strings:
  "lookup r k = Some e \<Longrightarrow> ent_val e = RStr s \<Longrightarrow>
     lookup (snd (addToTags E r key tags tenantId)) k = Some e"
proof (induction tags arbitrary: r)
  case Nil
  then show ?case by simp
next
  case (Cons tag tags)
  let ?tk = "tagKey_of E tag tenantId"
  show ?case
  proof (cases "cmd_SADD r ?tk key")
    case (Inl err)
    with Cons.prems show ?thesis by (simp add: rs_sadd_def)
  next
    case (Inr p)
    obtain n r1 where p: "p = (n, r1)" by (cases p)
    with Inr have s: "cmd_SADD r ?tk key = Inr (n, r1)" by simp
    from cmd_SADD_not_string [OF s] Cons.prems have ne: "k \<noteq> ?tk" by blast
    from cmd_SADD_member [OF s] obtain e1 where l1: "lookup r1 ?tk = Some e1" by blast
    let ?r2 = "store r1 ?tk (e1\<lparr>ent_exp := Some (now r1 + 86400000)\<rparr>)"
    from cmd_SADD_other [OF s ne] Cons.prems(1) ne
    have "lookup ?r2 k = Some e" by simp
    from Cons.IH [OF this Cons.prems(2)] s l1
    show ?thesis by (simp add: rs_sadd_def expire_day)
  qed
qed

lemma tag_holds_round:
  assumes "cmd_SADD r tk key = Inr (n, r1)" "lookup r1 tk = Some e"
  shows "tag_holds (store r1 tk (e\<lparr>ent_exp := Some (now r + 86400000)\<rparr>)) tk key"
  using cmd_SADD_member [OF assms(1)] assms(2) cmd_SADD_now [OF assms(1)]
  by (auto simp: tag_holds_def expired_def)

lemma tag_holds_kept_round:
  assumes "cmd_SADD r tk key = Inr (n, r1)" "lookup r1 tk = Some e" "tag_holds r k key"
  shows "tag_holds (store r1 tk (e\<lparr>ent_exp := Some (now r + 86400000)\<rparr>)) k key"
proof (cases "k = tk")
  case True
  with assms show ?thesis by (simp add: tag_holds_round)
next
  case False
  from cmd_SADD_other [OF assms(1) False] assms(3) False cmd_SADD_now [OF assms(1)]
  show ?thesis by (auto simp: tag_holds_def split: option.splits rvalue.splits)
qed

lemma addToTags_keeps_tag:
  "addToTags E r key tags tenantId = (Inr (), r') \<Longrightarrow> tag_holds r k key \<Longrightarrow> tag_holds r' k key"
proof (induction tags arbitrary: r)
  case Nil
  then show ?case by simp
next
  case (Cons tag tags)
  from Cons.prems(1) obtain n r1 e
    where s: "cmd_SADD r (tagKey_of E tag tenantId) key = Inr (n, r1)"
      and l: "lookup r1 (tagKey_of E tag tenantId) = Some e"
      and rest: "addToTags E (store r1 (tagKey_of E tag tenantId)
                   (e\<lparr>ent_exp := Some (now r + 86400000)\<rparr>)) key tags tenantId = (Inr (), r')"
    by (rule addToTags_Cons_ok)
  from tag_holds_kept_round [OF s l Cons.prems(2)] Cons.IH [OF rest] show ?case by blast
qed

lemma addToTags_tags:
  "addToTags E r key tags tenantId = (Inr (), r') \<Longrightarrow> tag \<in> set tags \<Longrightarrow>
     tag_holds r' (tagKey_of E tag tenantId) key"
proof (induction tags arbitrary: r)
  case Nil
  then show ?case by simp
next
  case (Cons t tags)
  from Cons.prems(1) obtain n r1 e
    where s: "cmd_SADD r (tagKey_of E t tenantId) key = Inr (n, r1)"
      and l: "lookup r1 (tagKey_of E t tenantId) = Some e"
      and rest: "addToTags E (store r1 (tagKey_of E t tenantId)
                   (e\<lparr>ent_exp := Some (now r + 86400000)\<rparr>)) key tags tenantId = (Inr (), r')"
    by (rule addToTags_Cons_ok)
  show ?case
  proof (cases "tag = t")
    case True
    from addToTags_keeps_tag [OF rest tag_holds_round [OF s l]] True show ?thesis by simp
  next
    case False
    with Cons.prems(2) have "tag \<in> set tags" by simp
    from Cons.IH [OF rest this] show ?thesis .
  qed
qed

lemma setJSON_stored:
  assumes "0 < n"
  shows "setJSON E r k v (Some n)
           = Inr (store r k \<lparr>ent_val = RStr (JSON_stringify E v), ent_exp = Some (now r + nat n * 1000)\<rparr>)"
  using assms by (simp add: setJSON_def rs_set_def truthy_num_def cmd_SETEX_def deadline_def)

lemma setJSON_fails:
  assumes "\<not> 0 < n"
  shows "setJSON E r k v (Some n) = Inl InvalidExpire \<or> n = 0"
  using assms by (simp add: setJSON_def rs_set_def truthy_num_def cmd_SETEX_def Let_def)

lemma eff_ttl_nonzero: "eff_ttl options \<noteq> 0"
  by (auto simp: eff_ttl_def truthy_num_def CACHE_TTL_MEDIUM_def split: option.splits)

lemma cache_set_alt:
  "cache_set E r key v options =
     (case setJSON E r (generateKey E key (options_tenant options)) v (Some (eff_ttl options)) of
        Inl e \<Rightarrow> (Inl e, r)
      | Inr r1 \<Rightarrow>
          (case options_tags options of
             None \<Rightarrow> (Inr (), r1)
           | Some tags \<Rightarrow>
               addToTags E r1 (generateKey E key (options_tenant options)) tags
                 (options_tenant options)))"
  by (simp add: cache_set_def eff_ttl_def Let_def)

text \<open>What a successful \<open>set\<close> leaves in the store.\<close>

lemma cache_set_ok:
  assumes "cache_set E r key v options = (Inr (), r')"
  shows "0 < eff_ttl options"
    and "now r' = now r"
    and "lookup r' (generateKey E key (options_tenant options))
           = Some \<lparr>ent_val = RStr (JSON_stringify E v),
                   ent_exp = Some (now r + nat (eff_ttl options) * 1000)\<rparr>"
    and "options_tags options = Some tags \<Longrightarrow> tag \<in> set tags \<Longrightarrow>
           tag_holds r' (tagKey_of E tag (options_tenant options))
             (generateKey E key (options_tenant options))"
proof -
  let ?ck = "generateKey E key (options_tenant options)"
  let ?e = "\<lparr>ent_val = RStr (JSON_stringify E v),
              ent_exp = Some (now r + nat (eff_ttl options) * 1000)\<rparr>"
  show pos: "0 < eff_ttl options"
  proof (rule ccontr)
    assume "\<not> 0 < eff_ttl options"
    with setJSON_fails [of "eff_ttl options" E r ?ck v] eff_ttl_nonzero [of options]
    have "setJSON E r ?ck v (Some (eff_ttl options)) = Inl InvalidExpire" by simp
    with assms show False by (simp add: cache_set_alt)
  qed
  note st = setJSON_stored [OF pos, of E r ?ck v]
  have l1: "lookup (store r ?ck ?e) ?ck = Some ?e" by (simp add: expired_def)
  show "lookup r' ?ck = Some ?e"
  proof (cases "options_tags options")
    case None
    with assms st l1 show ?thesis by (simp add: cache_set_alt)
  next
    case (Some ts)
    with assms st have "r' = snd (addToTags E (store r ?ck ?e) ?ck ts (options_tenant options))"
      by (simp add: cache_set_alt)
    with addToTags_keeps_strings [OF l1, of "JSON_stringify E v" E ?ck ts "options_tenant options"]
    show ?thesis by simp
  qed
  show "now r' = now r"
  proof (cases "options_tags options")
    case None
    with assms st show ?thesis by (auto simp: cache_set_alt)
  next
    case (Some ts)
    with assms st have "r' = snd (addToTags E (store r ?ck ?e) ?ck ts (options_tenant options))"
      by (simp add: cache_set_alt)
    then show ?thesis by (simp add: addToTags_now)
  qed
  assume t: "options_tags options = Some tags" "tag \<in> set tags"
  with assms st
  have "addToTags E (store r ?ck ?e) ?ck tags (options_tenant options) = (Inr (), r')"
    by (simp add: cache_set_alt)
  from addToTags_tags [OF this t(2)]
  show "tag_holds r' (tagKey_of E tag (options_tenant options)) ?ck" .
qed

lemma eff_ttl_default: "\<not> truthy_num (options_ttl options) \<Longrightarrow> eff_ttl options = 600"
  by (simp add: eff_ttl_def CACHE_TTL_MEDIUM_def)

lemma cache_set_entry:
  assumes "0 < eff_ttl options"
  shows "lookup (snd (cache_set E r key v options)) (generateKey E key (options_tenant options))
           = Some \<lparr>ent_val = RStr (JSON_stringify E v),
                   ent_exp = Some (now r + nat (eff_ttl options) * 1000)\<rparr>"
proof -
  let ?ck = "generateKey E key (options_tenant options)"
  let ?e = "\<lparr>ent_val = RStr (JSON_stringify E v),
              ent_exp = Some (now r + nat (eff_ttl options) * 1000)\<rparr>"
  note st = setJSON_stored [OF assms, of E r ?ck v]
  have l1: "lookup (store r ?ck ?e) ?ck = Some ?e" by (simp add: expired_def)
  show ?thesis
  proof (cases "options_tags options")
    case None
    with st l1 show ?thesis by (simp add: cache_set_alt)
  next
    case (Some ts)
    with st have "snd (cache_set E r key v options)
        = snd (addToTags E (store r ?ck ?e) ?ck ts (options_tenant options))"
      by (simp add: cache_set_alt)
    with addToTags_keeps_strings [OF l1, of "JSON_stringify E v" E ?ck ts "options_tenant options"]
    show ?thesis by simp
  qed
qed

lemma tag_holds_observed:
  assumes "tag_holds r tk m"
  shows "\<exists>ms. rs_smembers r tk = Inr ms \<and> m \<in> set ms"
    and "key_expiry r tk = Some (now r + 86400000)"
    and "rs_ttl r tk = CACHE_TTL_DAY"
    and "86400000 < d \<Longrightarrow> lookup (advance d r) tk = None"
  using assms
  by (auto simp: tag_holds_def rs_smembers_def cmd_SMEMBERS_def key_expiry_def rs_ttl_def
        cmd_TTL_def CACHE_TTL_DAY_def lookup_def expired_def
      split: option.splits rvalue.splits if_splits)

text \<open>
  Claim C4, as stated, fails for \<open>CacheService.set\<close>: called with no options at all
  on an empty store, it succeeds and the entry it stores under \<open>a\<close> expires after
  600 seconds.
\<close>

theorem set_without_ttl_expires:
  "fst (cache_set lit_env fresh_store ''a'' (JNum 1) None) = Inr ()
   \<and> key_expiry (snd (cache_set lit_env fresh_store ''a'' (JNum 1) None)) ''a'' = Some 600000"
  by (simp add: run_defs key_expiry_def)

text \<open>
  Claim C4, amended. \<open>CacheService.set\<close> called without a ttl (or with ttl 0) stores
  the entry with the default expiry of \<open>CACHE_TTL.MEDIUM\<close> = 600 seconds, whether or
  not the tag bookkeeping that follows succeeds. Every \<open>RedisService.set\<close> called
  without a ttl (or with ttl 0) succeeds and stores the entry with no expiry, and
  so does every \<open>rememberForever\<close> on a cache miss whose factory returns a value.
  Nothing is said here about which other operations leave a key without expiry.
\<close>

theorem set_default_ttl:
  "(\<not> truthy_num (options_ttl options) \<longrightarrow>
      lookup (snd (cache_set E r key v options)) (generateKey E key (options_tenant options))
        = Some \<lparr>ent_val = RStr (JSON_stringify E v), ent_exp = Some (now r + 600000)\<rparr>)
 \<and> (\<not> truthy_num ttl \<longrightarrow>
      (\<exists>r'. rs_set r key s ttl = Inr r'
          \<and> lookup r' key = Some \<lparr>ent_val = RStr s, ent_exp = None\<rparr>))
 \<and> (cache_get E r key (Some \<lparr>opt_ttl = None, opt_tenant = tenantId, opt_tags = None\<rparr>) = Inr JNull
      \<and> factory w = (Inr v, w1) \<longrightarrow>
      (\<exists>r'. rememberForever E r w key factory tenantId = (Inr v, r', w1)
          \<and> lookup r' (generateKey E key tenantId)
              = Some \<lparr>ent_val = RStr (JSON_stringify E v), ent_exp = None\<rparr>))"
proof (intro conjI impI)
  assume f: "\<not> truthy_num (options_ttl options)"
  from cache_set_entry [of options E r key v] eff_ttl_default [OF f]
  show "lookup (snd (cache_set E r key v options)) (generateKey E key (options_tenant options))
        = Some \<lparr>ent_val = RStr (JSON_stringify E v), ent_exp = Some (now r + 600000)\<rparr>"
    by simp
next
  assume "\<not> truthy_num ttl"
  then show "\<exists>r'. rs_set r key s ttl = Inr r'
          \<and> lookup r' key = Some \<lparr>ent_val = RStr s, ent_exp = None\<rparr>"
    by (simp add: rs_set_def cmd_SET_def expired_def)
next
  assume "cache_get E r key (Some \<lparr>opt_ttl = None, opt_tenant = tenantId, opt_tags = None\<rparr>) = Inr JNull
      \<and> factory w = (Inr v, w1)"
  then show "\<exists>r'. rememberForever E r w key factory tenantId = (Inr v, r', w1)
          \<and> lookup r' (generateKey E key tenantId)
              = Some \<lparr>ent_val = RStr (JSON_stringify E v), ent_exp = None\<rparr>"
    by (simp add: rememberForever_def setJSON_def rs_set_def truthy_num_def cmd_SET_def expired_def)
qed

theorem set_default_ttl_witness:
  "lookup (snd (cache_set lit_env fresh_store ''a'' (JNum 1) None)) ''a''
     = Some \<lparr>ent_val = RStr (JSON_stringify lit_env (JNum 1)), ent_exp = Some 600000\<rparr>
   \<and> (\<exists>r'. rs_set fresh_store ''a'' ''1'' None = Inr r'
          \<and> lookup r' ''a'' = Some \<lparr>ent_val = RStr ''1'', ent_exp = None\<rparr>)
   \<and> (\<exists>r'. rememberForever lit_env fresh_store (0::nat) ''a''
              (\<lambda>n. (Inr (JNum 1), Suc n)) None = (Inr (JNum 1), r', 1)
          \<and> lookup r' ''a''
               = Some \<lparr>ent_val = RStr (JSON_stringify lit_env (JNum 1)), ent_exp = None\<rparr>)"
proof -
  let ?r = "fresh_store"
  have miss: "cache_get lit_env ?r ''a'' (Some \<lparr>opt_ttl = None, opt_tenant = None, opt_tags = None\<rparr>)
      = Inr JNull"
    by (simp add: run_defs)
  from set_default_ttl [where options = None and ttl = None and E = lit_env and r = ?r
      and key = "''a''" and v = "JNum 1" and s = "''1''" and tenantId = None
      and factory = "\<lambda>n. (Inr (JNum 1), Suc n)" and w = "0::nat" and ?w1.0 = 1] miss
  show ?thesis
    by (simp add: options_ttl_def options_tenant_def truthy_num_def generateKey_def)
qed

text \<open>
  Claim C6. After a successful \<open>set\<close> with a tags list, for each listed tag the tag
  key (with the tenant prefix of the call) holds a set that contains the effective
  key of the entry, and the expiry of the tag key is one day (86400 seconds) from the
  time of the call, whatever it was before; one day later the tag key is gone unless
  a member was added in between.
\<close>

theorem set_registers_tags:
  assumes "cache_set E r key v options = (Inr (), r')"
    and "options_tags options = Some tags" and "tag \<in> set tags"
  shows "(\<exists>ms. rs_smembers r' (tagKey_of E tag (options_tenant options)) = Inr ms
            \<and> generateKey E key (options_tenant options) \<in> set ms)
       \<and> key_expiry r' (tagKey_of E tag (options_tenant options)) = Some (now r' + 86400000)
       \<and> rs_ttl r' (tagKey_of E tag (options_tenant options)) = CACHE_TTL_DAY
       \<and> (\<forall>d. 86400000 < d \<longrightarrow>
             lookup (advance d r') (tagKey_of E tag (options_tenant options)) = None)"
  using tag_holds_observed [OF cache_set_ok(4) [OF assms]] by blast

theorem set_registers_tags_witness:
  "\<exists>r' ms.
      cache_set lit_env fresh_store ''a'' (JNum 1)
        (Some \<lparr>opt_ttl = None, opt_tenant = Some ''s1'', opt_tags = Some [''x'', ''y'']\<rparr>)
        = (Inr (), r')
    \<and> rs_smembers r' ''tenant:s1:tag:y'' = Inr ms \<and> ''tenant:s1:a'' \<in> set ms
    \<and> key_expiry r' ''tenant:s1:tag:y'' = Some 86400000
    \<and> lookup (advance 86400001 r') ''tenant:s1:tag:y'' = None"
proof -
  let ?o = "Some \<lparr>opt_ttl = None, opt_tenant = Some ''s1'', opt_tags = Some [''x'', ''y'']\<rparr>"
  have "fst (cache_set lit_env fresh_store ''a'' (JNum 1) ?o) = Inr ()"
    by (simp add: run_defs)
  then obtain r' where h: "cache_set lit_env fresh_store ''a'' (JNum 1) ?o = (Inr (), r')"
    by (cases "cache_set lit_env fresh_store ''a'' (JNum 1) ?o") simp
  have n: "now r' = 0"
    using cache_set_ok(2) [OF h] by simp
  have t: "options_tags ?o = Some [''x'', ''y'']" "''y'' \<in> set [''x'', ''y'']"
    by (simp_all add: options_tags_def)
  from set_registers_tags [OF h t] n h show ?thesis
    by (simp add: options_tenant_def tagKey_of_def generateKey_def lit_env_def)
qed

subsection \<open>Cache-aside\<close>

lemma cache_get_hit:
  assumes "lookup r (generateKey E key (options_tenant options)) = Some \<lparr>ent_val = RStr b, ent_exp = x\<rparr>"
    and "b \<noteq> []" and "JSON_parse E b = Some v"
  shows "cache_get E r key options = Inr v"
  using assms by (simp add: cache_get_def getJSON_def rs_get_def cmd_GET_def)

lemma lookup_advance_within:
  "lookup r k = Some \<lparr>ent_val = x, ent_exp = Some t\<rparr> \<Longrightarrow> now r + d \<le> t \<Longrightarrow>
     lookup (advance d r) k = Some \<lparr>ent_val = x, ent_exp = Some t\<rparr>"
  by (auto simp: lookup_def expired_def split: option.splits if_splits)

lemma getOrSet_miss:
  assumes "cache_get E r key options = Inr JNull"
  shows "getOrSet E r w key factory options =
           (case factory w of
              (Inl e, w1) \<Rightarrow> (Inl e, r, w1)
            | (Inr v, w1) \<Rightarrow>
                (case cache_set E r key v options of
                   (Inl e, r1) \<Rightarrow> (Inl e, r1, w1)
                 | (Inr _, r1) \<Rightarrow> (Inr v, r1, w1)))"
  using assms by (simp add: getOrSet_def)

lemma getOrSet_hit:
  assumes "cache_get E r key options = Inr v" "v \<noteq> JNull"
  shows "getOrSet E r w key factory options = (Inr v, r, w)"
  using assms by (simp add: getOrSet_def)

text \<open>
  Claim C7. If \<open>key\<close> is a miss, the factory returns a value \<open>v\<close> other than null that
  survives the JSON round trip, and the first \<open>getOrSet\<close> succeeds, then that call
  returns \<open>v\<close> and leaves the factory in the state its single run produced; a second
  \<open>getOrSet\<close> made before the TTL of the entry has elapsed returns \<open>v\<close> again and
  changes neither the store nor the factory's state, whatever factory it is given:
  the factory is not run.
\<close>

theorem getOrSet_caches:
  assumes "cache_get E r key options = Inr JNull"
    and "factory w = (Inr v, w1)" and "v \<noteq> JNull"
    and "JSON_parse E (JSON_stringify E v) = Some v" and "JSON_stringify E v \<noteq> []"
    and "getOrSet E r w key factory options = (Inr x, r1, w')"
    and "d \<le> nat (eff_ttl options) * 1000"
  shows "x = v \<and> w' = w1
       \<and> getOrSet E (advance d r1) w1 key factory' options = (Inr v, advance d r1, w1)"
proof -
  from assms(6) getOrSet_miss [OF assms(1), of w factory] assms(2)
  have s: "cache_set E r key v options = (Inr (), r1)" and x: "x = v" and w: "w' = w1"
    by (auto split: prod.splits sum.splits)
  note ok = cache_set_ok(2,3) [OF s]
  from ok(1) assms(7) have "now r1 + d \<le> now r + nat (eff_ttl options) * 1000" by simp
  from lookup_advance_within [OF ok(2) this]
  have "cache_get E (advance d r1) key options = Inr v"
    by (rule cache_get_hit) (rule assms(5), rule assms(4))
  from getOrSet_hit [OF this assms(3)] x w show ?thesis by simp
qed

lemma lit_roundtrip_one: "lit_parse (lit_stringify (JNum 1)) = Some (JNum 1)"
  by code_simp

lemma lit_stringify_one_nonempty: "lit_stringify (JNum 1) \<noteq> []"
  by (simp add: ll2string_def)

text \<open>
  The witness is the test of the specification: the factory increments a counter and
  returns it.
\<close>

theorem getOrSet_caches_witness:
  "\<exists>r1. getOrSet lit_env fresh_store (0::nat) ''k'' (\<lambda>n. (Inr (JNum (int n + 1)), n + 1)) None
           = (Inr (JNum 1), r1, 1)
      \<and> getOrSet lit_env (advance 1000 r1) 1 ''k'' (\<lambda>n. (Inr (JNum (int n + 1)), n + 1)) None
           = (Inr (JNum 1), advance 1000 r1, 1)"
proof -
  let ?f = "\<lambda>n::nat. (Inr (JNum (int n + 1)) :: error + json, n + 1)"
  have miss: "cache_get lit_env fresh_store ''k'' None = Inr JNull"
    by (simp add: run_defs)
  have f: "?f 0 = (Inr (JNum 1), 1)" by simp
  have "fst (cache_set lit_env fresh_store ''k'' (JNum 1) None) = Inr ()"
    by (simp add: run_defs)
  then obtain r1 where s: "cache_set lit_env fresh_store ''k'' (JNum 1) None = (Inr (), r1)"
    by (cases "cache_set lit_env fresh_store ''k'' (JNum 1) None") simp
  from miss s have g: "getOrSet lit_env fresh_store 0 ''k'' ?f None = (Inr (JNum 1), r1, 1)"
    by (simp add: getOrSet_def)
  have c: "JSON_parse lit_env (JSON_stringify lit_env (JNum 1)) = Some (JNum 1)"
    "JSON_stringify lit_env (JNum 1) \<noteq> []"
    by (simp_all add: lit_env_def lit_roundtrip_one lit_stringify_one_nonempty del: lit_stringify.simps)
  have d: "(1000::nat) \<le> nat (eff_ttl None) * 1000"
    by (simp add: eff_ttl_def options_ttl_def truthy_num_def CACHE_TTL_MEDIUM_def)
  from getOrSet_caches [OF miss f _ c g d, of ?f] g show ?thesis by auto
qed

lemma cache_get_null_cases:
  assumes "rs_get r (generateKey E key (options_tenant options)) = Inr None
     \<or> (\<exists>b. rs_get r (generateKey E key (options_tenant options)) = Inr (Some b)
           \<and> (b = [] \<or> JSON_parse E b = None \<or> JSON_parse E b = Some JNull))"
  shows "cache_get E r key options = Inr JNull"
  using assms by (auto simp: cache_get_def getJSON_def)

lemma cache_get_miss_iff:
  "cache_get E r key options = Inr JNull \<longleftrightarrow>
     (case lookup r (generateKey E key (options_tenant options)) of
        None \<Rightarrow> True
      | Some e \<Rightarrow>
          (case ent_val e of
             RSet _ \<Rightarrow> False
           | RStr b \<Rightarrow> b = [] \<or> JSON_parse E b = None \<or> JSON_parse E b = Some JNull))"
  by (auto simp: cache_get_def getJSON_def rs_get_def cmd_GET_def
      split: option.splits rvalue.splits)

lemma lookup_advance_cases: "lookup (advance d r) k = None \<or> lookup (advance d r) k = lookup r k"
  by (auto simp: lookup_def expired_def split: option.splits)

lemma miss_advance:
  assumes "cache_get E r key options = Inr JNull"
  shows "cache_get E (advance d r) key options = Inr JNull"
  using assms lookup_advance_cases [of d r "generateKey E key (options_tenant options)"]
  by (auto simp: cache_get_miss_iff)

lemma cache_set_null_miss:
  assumes "JSON_parse E (JSON_stringify E JNull) = Some JNull"
    and "cache_get E r key options = Inr JNull"
  shows "cache_get E (snd (cache_set E r key JNull options)) key options = Inr JNull"
proof (cases "0 < eff_ttl options")
  case True
  from cache_set_entry [OF True, of E r key JNull] assms(1) show ?thesis
    by (simp add: cache_get_miss_iff)
next
  case False
  with setJSON_fails [OF False, of E r "generateKey E key (options_tenant options)" JNull]
    eff_ttl_nonzero [of options]
  have "cache_set E r key JNull options = (Inl InvalidExpire, r)"
    by (simp add: cache_set_alt)
  with assms(2) show ?thesis by simp
qed

lemma getOrSet_null_step:
  assumes "JSON_parse E (JSON_stringify E JNull) = Some JNull"
    and "cache_get E r key options = Inr JNull"
    and "fst (factory w) = Inr JNull"
    and "getOrSet E r w key factory options = (res, r1, w1)"
  shows "w1 = snd (factory w) \<and> cache_get E r1 key options = Inr JNull"
proof -
  obtain w' where f: "factory w = (Inr JNull, w')" using assms(3) by (cases "factory w") auto
  from assms(4) getOrSet_miss [OF assms(2), of w factory] f
  have "w1 = w'" and "r1 = snd (cache_set E r key JNull options)"
    by (auto split: prod.splits sum.splits)
  with f cache_set_null_miss [OF assms(1,2)] show ?thesis by simp
qed

lemma getOrSet_calls_null:
  assumes "JSON_parse E (JSON_stringify E JNull) = Some JNull"
    and "\<forall>w. fst (factory w) = Inr JNull"
  shows "cache_get E r key options = Inr JNull \<Longrightarrow>
     snd (getOrSet_calls E r w key factory options ds) = ((\<lambda>w. snd (factory w)) ^^ length ds) w"
proof (induction ds arbitrary: r w)
  case Nil
  then show ?case by simp
next
  case (Cons d ds)
  obtain res r1 w1 where g: "getOrSet E (advance d r) w key factory options = (res, r1, w1)"
    by (cases "getOrSet E (advance d r) w key factory options") auto
  from assms(2) have "fst (factory w) = Inr JNull" by simp
  from getOrSet_null_step [OF assms(1) miss_advance [OF Cons.prems] this g]
  have w1: "w1 = snd (factory w)" and m: "cache_get E r1 key options = Inr JNull" by simp_all
  from Cons.IH [OF m, of w1] g w1 funpow_swap1 [of "\<lambda>w. snd (factory w)" "length ds" w]
  show ?case by simp
qed

text \<open>
  Claim C10. \<open>get\<close> returns null when the key is absent, when the stored bytes are
  empty or not valid JSON, and when they decode to null. On such a miss \<open>getOrSet\<close>
  runs the factory. A factory that always returns null is therefore run by every
  \<open>getOrSet\<close> of a sequence of calls on the key: after \<open>n\<close> calls its state is the
  result of \<open>n\<close> runs.
\<close>

theorem null_is_never_a_hit:
  "((rs_get r (generateKey E key (options_tenant options)) = Inr None
      \<or> (\<exists>b. rs_get r (generateKey E key (options_tenant options)) = Inr (Some b)
            \<and> (b = [] \<or> JSON_parse E b = None \<or> JSON_parse E b = Some JNull)))
     \<longrightarrow> cache_get E r key options = Inr JNull)
 \<and> (cache_get E r key options = Inr JNull \<longrightarrow>
       snd (snd (getOrSet E r w key factory options)) = snd (factory w))
 \<and> (cache_get E r key options = Inr JNull
       \<and> (\<forall>w. fst (factory w) = Inr JNull)
       \<and> JSON_parse E (JSON_stringify E JNull) = Some JNull \<longrightarrow>
       snd (getOrSet_calls E r w key factory options ds)
         = ((\<lambda>w. snd (factory w)) ^^ length ds) w)"
proof (intro conjI impI)
  assume "rs_get r (generateKey E key (options_tenant options)) = Inr None
      \<or> (\<exists>b. rs_get r (generateKey E key (options_tenant options)) = Inr (Some b)
            \<and> (b = [] \<or> JSON_parse E b = None \<or> JSON_parse E b = Some JNull))"
  then show "cache_get E r key options = Inr JNull" by (rule cache_get_null_cases)
next
  assume "cache_get E r key options = Inr JNull"
  from getOrSet_miss [OF this, of w factory]
  show "snd (snd (getOrSet E r w key factory options)) = snd (factory w)"
    by (simp split: prod.splits sum.splits)
next
  assume a: "cache_get E r key options = Inr JNull
       \<and> (\<forall>w. fst (factory w) = Inr JNull)
       \<and> JSON_parse E (JSON_stringify E JNull) = Some JNull"
  then show "snd (getOrSet_calls E r w key factory options ds)
         = ((\<lambda>w. snd (factory w)) ^^ length ds) w"
    using getOrSet_calls_null [of E factory r key options w ds] by blast
qed

theorem null_is_never_a_hit_witness:
  "cache_get lit_env fresh_store ''k'' None = Inr JNull
   \<and> snd (snd (getOrSet lit_env fresh_store (0::nat) ''k'' (\<lambda>n. (Inr JNull, Suc n)) None)) = 1
   \<and> snd (getOrSet_calls lit_env fresh_store (0::nat) ''k'' (\<lambda>n. (Inr JNull, Suc n)) None
            [0, 1000, 1000]) = 3"
proof -
  let ?f = "\<lambda>n::nat. (Inr JNull :: error + json, Suc n)"
  have g: "rs_get fresh_store (generateKey lit_env ''k'' (options_tenant None)) = Inr None"
    by (simp add: run_defs)
  have c: "JSON_parse lit_env (JSON_stringify lit_env JNull) = Some JNull"
    by (simp add: lit_env_def lit_parse_def)
  have n: "\<forall>w. fst (?f w) = Inr JNull" by simp
  have i: "((\<lambda>w. snd (?f w)) ^^ length [0::nat, 1000, 1000]) 0 = 3" by simp
  note t = null_is_never_a_hit [of fresh_store lit_env "''k''" None 0 ?f "[0, 1000, 1000]"]
  from t g have m: "cache_get lit_env fresh_store ''k'' None = Inr JNull" by blast
  from t m have o: "snd (snd (getOrSet lit_env fresh_store 0 ''k'' ?f None)) = 1" by simp
  from t m n c have "snd (getOrSet_calls lit_env fresh_store 0 ''k'' ?f None [0, 1000, 1000])
      = ((\<lambda>w. snd (?f w)) ^^ length [0::nat, 1000, 1000]) 0"
    by blast
  with i m o show ?thesis by simp
qed

subsection \<open>Invalidation by tag\<close>

lemma del_keys_snd_Cons: "snd (del_keys r (k # ks)) = snd (del_keys (remove r k) ks)"
  by (simp split: option.splits prod.splits)

lemma del_keys_now: "now (snd (del_keys r ks)) = now r"
  by (induction ks arbitrary: r) (simp_all add: del_keys_snd_Cons del: del_keys.simps(2))

lemma del_keys_lookup:
  "lookup (snd (del_keys r ks)) k = (if k \<in> set ks then None else lookup r k)"
  by (induction ks arbitrary: r) (simp_all add: del_keys_snd_Cons del: del_keys.simps(2))

lemma invalidateTag_absent:
  "lookup r (tagKey_of E tag tenantId) = None \<Longrightarrow> invalidateTag E r tag tenantId = (Inr 0, r)"
  by (simp add: invalidateTag_def rs_smembers_def cmd_SMEMBERS_def)

lemma invalidateTag_set:
  assumes "lookup r (tagKey_of E tag tenantId) = Some te" "ent_val te = RSet ms" "ms \<noteq> []"
  shows "\<exists>n r3. invalidateTag E r tag tenantId = (Inr n, r3)
           \<and> (\<forall>k. lookup r3 k = (if k \<in> set ms \<or> k = tagKey_of E tag tenantId then None
                                  else lookup r k))"
proof -
  let ?tk = "tagKey_of E tag tenantId"
  obtain n r1 where d1: "del_keys r ms = (n, r1)" by (cases "del_keys r ms")
  obtain m r2 where d2: "del_keys r1 [?tk] = (m, r2)" by (cases "del_keys r1 [?tk]")
  from assms d1 d2 have i: "invalidateTag E r tag tenantId = (Inr n, r2)"
    by (simp add: invalidateTag_def rs_smembers_def cmd_SMEMBERS_def rs_del_def cmd_DEL_def Let_def)
  from del_keys_lookup [of r ms] d1
  have l1: "\<And>k. lookup r1 k = (if k \<in> set ms then None else lookup r k)" by simp
  from del_keys_lookup [of r1 "[?tk]"] d2
  have l2: "\<And>k. lookup r2 k = (if k = ?tk then None else lookup r1 k)" by simp
  from i l1 l2 show ?thesis by simp
qed

lemma covered_advance: "covered r tk k \<Longrightarrow> covered (advance d r) tk k"
  by (auto simp: covered_def lookup_def expired_def split: option.splits rvalue.splits if_splits)

lemma eff_ttl_tag_options: "eff_ttl (tag_options tenantId tag) = 600"
  by (simp add: tag_options_def eff_ttl_def options_ttl_def truthy_num_def CACHE_TTL_MEDIUM_def)

lemma tag_options_sel:
  "options_tenant (tag_options tenantId tag) = tenantId"
  "options_tags (tag_options tenantId tag) = Some [tag]"
  by (simp_all add: tag_options_def options_tenant_def options_tags_def)

lemma cache_set_tagged:
  assumes "cache_set E r key v (tag_options tenantId tag) = (Inr (), r')"
  shows "lookup r' (generateKey E key tenantId)
           = Some \<lparr>ent_val = RStr (JSON_stringify E v), ent_exp = Some (now r + 600000)\<rparr>"
    and "tag_holds r' (tagKey_of E tag tenantId) (generateKey E key tenantId)"
    and "now r' = now r"
  using cache_set_ok(3) [OF assms] cache_set_ok(4) [OF assms, of "[tag]" tag] cache_set_ok(2) [OF assms]
  by (simp_all add: tag_options_sel eff_ttl_tag_options)

lemma covered_set_same:
  assumes "cache_set E r key v (tag_options tenantId tag) = (Inr (), r')"
  shows "covered r' (tagKey_of E tag tenantId) (generateKey E key tenantId)"
  using cache_set_tagged [OF assms]
  by (auto simp: covered_def tag_holds_def split: option.splits rvalue.splits)

lemma tagKey_not_entry:
  assumes "cache_set E r key v (tag_options tenantId tag) = (Inr (), r')"
  shows "generateKey E key tenantId \<noteq> tagKey_of E tag tenantId"
  using cache_set_tagged(1,2) [OF assms]
  by (auto simp: tag_holds_def split: option.splits rvalue.splits)

lemma cache_set_tagged_unfold:
  assumes "cache_set E r key v (tag_options tenantId tag) = (Inr (), r')"
  obtains n r1 e where
    "cmd_SADD (store r (generateKey E key tenantId)
        \<lparr>ent_val = RStr (JSON_stringify E v), ent_exp = Some (now r + 600000)\<rparr>)
        (tagKey_of E tag tenantId) (generateKey E key tenantId) = Inr (n, r1)"
    and "lookup r1 (tagKey_of E tag tenantId) = Some e"
    and "r' = store r1 (tagKey_of E tag tenantId) (e\<lparr>ent_exp := Some (now r + 86400000)\<rparr>)"
proof -
  let ?ck = "generateKey E key tenantId"
  let ?tk = "tagKey_of E tag tenantId"
  let ?r1 = "store r ?ck \<lparr>ent_val = RStr (JSON_stringify E v), ent_exp = Some (now r + 600000)\<rparr>"
  have "setJSON E r ?ck v (Some 600) = Inr ?r1"
    using setJSON_stored [of 600 E r ?ck v] by simp
  with assms have a: "addToTags E ?r1 ?ck [tag] tenantId = (Inr (), r')"
    by (simp add: cache_set_alt tag_options_sel eff_ttl_tag_options)
  from a obtain n r1 e where s: "cmd_SADD ?r1 ?tk ?ck = Inr (n, r1)"
    and l: "lookup r1 ?tk = Some e"
    and rest: "addToTags E (store r1 ?tk (e\<lparr>ent_exp := Some (now ?r1 + 86400000)\<rparr>)) ?ck []
                 tenantId = (Inr (), r')"
    by (rule addToTags_Cons_ok)
  from rest have "r' = store r1 ?tk (e\<lparr>ent_exp := Some (now r + 86400000)\<rparr>)" by simp
  with s l show thesis by (rule that)
qed

lemma covered_set_other:
  assumes s: "cache_set E r key v (tag_options tenantId tag) = (Inr (), r')"
    and c: "covered r (tagKey_of E tag tenantId) k"
    and ne: "k \<noteq> tagKey_of E tag tenantId" "k \<noteq> generateKey E key tenantId"
  shows "covered r' (tagKey_of E tag tenantId) k"
proof -
  let ?ck = "generateKey E key tenantId"
  let ?tk = "tagKey_of E tag tenantId"
  let ?r1 = "store r ?ck \<lparr>ent_val = RStr (JSON_stringify E v), ent_exp = Some (now r + 600000)\<rparr>"
  from s obtain n r1 e where sadd: "cmd_SADD ?r1 ?tk ?ck = Inr (n, r1)"
    and l: "lookup r1 ?tk = Some e"
    and r': "r' = store r1 ?tk (e\<lparr>ent_exp := Some (now r + 86400000)\<rparr>)"
    by (rule cache_set_tagged_unfold)
  from tagKey_not_entry [OF s] have tkck: "?tk \<noteq> ?ck" by simp
  from cmd_SADD_now [OF sadd] have n1: "now r1 = now r" by simp
  from cmd_SADD_other [OF sadd ne(1)] ne have lk: "lookup r' k = lookup r k"
    by (simp add: r')
  have ltk: "lookup r' ?tk = Some (e\<lparr>ent_exp := Some (now r + 86400000)\<rparr>)"
    by (simp add: r' n1 expired_def)
  have now': "now r' = now r" by (simp add: r' n1)
  show ?thesis
  proof (cases "lookup r k")
    case None
    with lk show ?thesis by (simp add: covered_def)
  next
    case (Some ek)
    with c obtain te ms x y where te: "lookup r ?tk = Some te" "ent_val te = RSet ms" "k \<in> set ms"
      and x: "ent_exp ek = Some x" "x \<le> now r + 86400000"
      by (auto simp: covered_def split: option.splits rvalue.splits)
    from te(1) tkck have "lookup ?r1 ?tk = Some te" by simp
    from cmd_SADD_keeps_members [OF sadd this te(2)] l
    obtain ms' where e: "ent_val e = RSet ms'" "set ms \<subseteq> set ms'" by auto
    from Some lk ltk e te(3) x now' show ?thesis
      by (auto simp: covered_def)
  qed
qed

lemma covered_absent_tag:
  "covered r tk k \<Longrightarrow> lookup r tk = None \<Longrightarrow> lookup r k = None"
  by (auto simp: covered_def split: option.splits)

lemma covered_member:
  "covered r tk k \<Longrightarrow> lookup r tk = Some te \<Longrightarrow> ent_val te = RSet ms \<Longrightarrow>
     lookup r k = None \<or> k \<in> set ms"
  by (auto simp: covered_def split: option.splits)

lemma rs_exists_iff: "rs_exists r k \<longleftrightarrow> lookup r k \<noteq> None"
  by (simp add: rs_exists_def cmd_EXISTS_def split: option.splits)

lemma cache_get_absent:
  "lookup r (generateKey E key (options_tenant options)) = None \<Longrightarrow>
     cache_get E r key options = Inr JNull"
  by (simp add: cache_get_miss_iff)

text \<open>
  Claim C5. After a successful \<open>set\<close> of one key and a later successful \<open>set\<close> of
  another (or the same) key, both with the options \<open>{tags: [tag]}\<close>, an
  \<open>invalidateTag\<close> of that tag at any later time succeeds and deletes every member
  of the tag set and the tag set itself; from then on \<open>get\<close> returns null for both
  keys and the tag key does not exist. Time may pass between the calls.
\<close>

theorem invalidateTag_clears:
  assumes "cache_set E r0 ka va (tag_options tenantId tag) = (Inr (), r1)"
    and "cache_set E (advance d1 r1) kb vb (tag_options tenantId tag) = (Inr (), r2)"
  shows "\<exists>n r3. invalidateTag E (advance d2 r2) tag tenantId = (Inr n, r3)
           \<and> cache_get E (advance d3 r3) ka (tag_options tenantId tag) = Inr JNull
           \<and> cache_get E (advance d3 r3) kb (tag_options tenantId tag) = Inr JNull
           \<and> rs_exists (advance d3 r3) (tagKey_of E tag tenantId) = False
           \<and> (\<forall>ms m. rs_smembers (advance d2 r2) (tagKey_of E tag tenantId) = Inr ms
                 \<and> m \<in> set ms \<longrightarrow> rs_exists r3 m = False)"
proof -
  let ?a = "generateKey E ka tenantId"
  let ?b = "generateKey E kb tenantId"
  let ?tk = "tagKey_of E tag tenantId"
  let ?s = "advance d2 r2"
  have ca1: "covered (advance d1 r1) ?tk ?a"
    by (rule covered_advance) (rule covered_set_same [OF assms(1)])
  have cb: "covered r2 ?tk ?b" by (rule covered_set_same [OF assms(2)])
  have ca: "covered r2 ?tk ?a"
  proof (cases "?a = ?b")
    case True
    with cb show ?thesis by simp
  next
    case False
    from covered_set_other [OF assms(2) ca1 tagKey_not_entry [OF assms(1)] False]
    show ?thesis .
  qed
  from ca cb have cs: "covered ?s ?tk ?a" "covered ?s ?tk ?b"
    by (simp_all add: covered_advance)
  from cache_set_tagged(2) [OF assms(2)]
  obtain te ms where te: "lookup r2 ?tk = Some te" "ent_val te = RSet ms" "?b \<in> set ms"
    by (auto simp: tag_holds_def split: option.splits rvalue.splits)
  have "\<exists>n r3. invalidateTag E ?s tag tenantId = (Inr n, r3)
          \<and> lookup r3 ?a = None \<and> lookup r3 ?b = None \<and> lookup r3 ?tk = None
          \<and> (\<forall>ms m. rs_smembers ?s ?tk = Inr ms \<and> m \<in> set ms \<longrightarrow> lookup r3 m = None)"
  proof (cases "lookup ?s ?tk")
    case None
    from invalidateTag_absent [OF None] covered_absent_tag [OF cs(1) None]
      covered_absent_tag [OF cs(2) None] None
    show ?thesis by (simp add: rs_smembers_def cmd_SMEMBERS_def)
  next
    case (Some te')
    with lookup_advance_cases [of d2 r2 ?tk] te have l: "lookup ?s ?tk = Some te" by simp
    from te(3) have ne: "ms \<noteq> []" by auto
    from invalidateTag_set [OF l te(2) ne] obtain n r3
      where i: "invalidateTag E ?s tag tenantId = (Inr n, r3)"
        and k: "\<And>k. lookup r3 k = (if k \<in> set ms \<or> k = ?tk then None else lookup ?s k)"
      by blast
    from covered_member [OF cs(1) l te(2)] k have a: "lookup r3 ?a = None" by auto
    from covered_member [OF cs(2) l te(2)] k have b: "lookup r3 ?b = None" by auto
    from k have t: "lookup r3 ?tk = None" by simp
    from l te(2) k
    have m: "\<forall>ms m. rs_smembers ?s ?tk = Inr ms \<and> m \<in> set ms \<longrightarrow> lookup r3 m = None"
      by (simp add: rs_smembers_def cmd_SMEMBERS_def)
    from i a b t m show ?thesis by blast
  qed
  then obtain n r3 where i: "invalidateTag E ?s tag tenantId = (Inr n, r3)"
    and a: "lookup r3 ?a = None" and b: "lookup r3 ?b = None" and t: "lookup r3 ?tk = None"
    and m: "\<forall>ms m. rs_smembers ?s ?tk = Inr ms \<and> m \<in> set ms \<longrightarrow> lookup r3 m = None"
    by blast
  from a have ga: "cache_get E (advance d3 r3) ka (tag_options tenantId tag) = Inr JNull"
    by (intro cache_get_absent lookup_advance_None) (simp add: tag_options_sel)
  from b have gb: "cache_get E (advance d3 r3) kb (tag_options tenantId tag) = Inr JNull"
    by (intro cache_get_absent lookup_advance_None) (simp add: tag_options_sel)
  from t have gt: "rs_exists (advance d3 r3) ?tk = False"
    by (simp add: rs_exists_iff lookup_advance_None)
  from m have gm: "\<forall>ms m. rs_smembers ?s ?tk = Inr ms \<and> m \<in> set ms \<longrightarrow> rs_exists r3 m = False"
    by (simp add: rs_exists_iff)
  from i ga gb gt gm show ?thesis by blast
qed

theorem invalidateTag_clears_witness:
  "\<exists>r1 r2 n r3.
      cache_set lit_env fresh_store ''a'' (JNum 1) (tag_options None ''t'') = (Inr (), r1)
    \<and> cache_set lit_env (advance 1000 r1) ''b'' (JNum 2) (tag_options None ''t'') = (Inr (), r2)
    \<and> invalidateTag lit_env (advance 1000 r2) ''t'' None = (Inr n, r3)
    \<and> cache_get lit_env (advance 1000 r3) ''a'' (tag_options None ''t'') = Inr JNull
    \<and> cache_get lit_env (advance 1000 r3) ''b'' (tag_options None ''t'') = Inr JNull
    \<and> rs_exists (advance 1000 r3) ''tag:t'' = False"
proof -
  define r1 where "r1 = snd (cache_set lit_env fresh_store ''a'' (JNum 1) (tag_options None ''t''))"
  define r2 where "r2 = snd (cache_set lit_env (advance 1000 r1) ''b'' (JNum 2) (tag_options None ''t''))"
  have "fst (cache_set lit_env fresh_store ''a'' (JNum 1) (tag_options None ''t'')) = Inr ()"
    by (simp add: run_defs tag_options_def)
  then have s1: "cache_set lit_env fresh_store ''a'' (JNum 1) (tag_options None ''t'') = (Inr (), r1)"
    by (simp add: r1_def prod_eq_iff)
  have "fst (cache_set lit_env (advance 1000 r1) ''b'' (JNum 2) (tag_options None ''t'')) = Inr ()"
    unfolding r1_def
    by (simp add: run_defs tag_options_def lookup_def store_def advance_def fresh_store_def)
  then have s2: "cache_set lit_env (advance 1000 r1) ''b'' (JNum 2) (tag_options None ''t'') = (Inr (), r2)"
    by (simp add: r2_def prod_eq_iff)
  from invalidateTag_clears [OF s1 s2, of 1000 1000] s1 s2
  show ?thesis
    by (auto simp: tagKey_of_def generateKey_def)
qed

section \<open>Tenant-scoped connections\<close>

lemma disconnect_journal: "journal (snd (disconnect c w)) = journal w @ [Disconnect c]"
  by (simp add: disconnect_def Let_def split: option.splits)

lemma disconnect_closed: "disconnect c w = (Inr (), w') \<Longrightarrow> c \<notin> set (connections w')"
  by (auto simp: disconnect_def Let_def split: option.splits)

lemma withTenant_journal:
  "\<exists>w3 :: database.
     journal (snd (withTenant g tenantId callback w)) = journal w3 @ [Disconnect (next_client w)]"
proof -
  let ?c = "next_client w"
  let ?body = "case executeRawUnsafe ?c (search_path_sql (g tenantId)) (snd (new_PrismaClient w)) of
                (Inl e, w2) \<Rightarrow> (Inl e, w2)
              | (Inr _, w2) \<Rightarrow> callback ?c w2"
  obtain res w3 where t: "?body = (res, w3)" by (cases ?body)
  obtain dr w4 where d: "disconnect ?c w3 = (dr, w4)" by (cases "disconnect ?c w3")
  from disconnect_journal [of ?c w3] d have j: "journal w4 = journal w3 @ [Disconnect ?c]" by simp
  from t d have "snd (withTenant g tenantId callback w) = w4"
    by (simp add: withTenant_def new_PrismaClient_def split: sum.splits)
  with j have "journal (snd (withTenant g tenantId callback w)) = journal w3 @ [Disconnect ?c]"
    by simp
  then show ?thesis ..
qed

text \<open>
  Claim C8. On every path through \<open>withTenant\<close>, whatever the database answers and
  whatever the callback does, the last operation issued is the disconnect of the
  client created for the call. When that disconnect completes, the client holds no
  connection and the caller gets the outcome of the \<open>try\<close> block: the error of the
  \<open>SET search_path\<close> statement if it failed, otherwise what the callback returned
  or the error it threw.
\<close>

theorem withTenant_releases:
  "(journal (snd (withTenant g tenantId callback w)) \<noteq> []
      \<and> last (journal (snd (withTenant g tenantId callback w))) = Disconnect (next_client w))
 \<and> (\<forall>e w2 w3.
       executeRawUnsafe (next_client w) (search_path_sql (g tenantId)) (snd (new_PrismaClient w))
         = (Inl e, w2)
       \<and> disconnect (next_client w) w2 = (Inr (), w3) \<longrightarrow>
       withTenant g tenantId callback w = (Inl e, w3)
       \<and> next_client w \<notin> set (connections w3))
 \<and> (\<forall>n w2 res w3 w4.
       executeRawUnsafe (next_client w) (search_path_sql (g tenantId)) (snd (new_PrismaClient w))
         = (Inr n, w2)
       \<and> callback (next_client w) w2 = (res, w3)
       \<and> disconnect (next_client w) w3 = (Inr (), w4) \<longrightarrow>
       withTenant g tenantId callback w = (res, w4)
       \<and> next_client w \<notin> set (connections w4))"
proof (intro conjI allI impI)
  from withTenant_journal [of g tenantId callback w] obtain w3 :: database
    where j: "journal (snd (withTenant g tenantId callback w))
      = journal w3 @ [Disconnect (next_client w)]"
    by blast
  from j show "journal (snd (withTenant g tenantId callback w)) \<noteq> []" by simp
  from j show "last (journal (snd (withTenant g tenantId callback w))) = Disconnect (next_client w)"
    by simp
next
  fix e w2 w3
  assume a: "executeRawUnsafe (next_client w) (search_path_sql (g tenantId)) (snd (new_PrismaClient w))
         = (Inl e, w2)
       \<and> disconnect (next_client w) w2 = (Inr (), w3)"
  then show "withTenant g tenantId callback w = (Inl e, w3)"
    by (simp add: withTenant_def new_PrismaClient_def)
  from a [THEN conjunct2] show "next_client w \<notin> set (connections w3)"
    by (rule disconnect_closed)
next
  fix n w2 res w3 w4
  assume a: "executeRawUnsafe (next_client w) (search_path_sql (g tenantId)) (snd (new_PrismaClient w))
         = (Inr n, w2)
       \<and> callback (next_client w) w2 = (res, w3)
       \<and> disconnect (next_client w) w3 = (Inr (), w4)"
  then show "withTenant g tenantId callback w = (res, w4)"
    by (simp add: withTenant_def new_PrismaClient_def)
  from a [THEN conjunct2, THEN conjunct2] show "next_client w \<notin> set (connections w4)"
    by (rule disconnect_closed)
qed

theorem withTenant_releases_witness:
  "fst (withTenant (\<lambda>t. ''tenant_'' @ t) ''t1'' failing_callback idle_database)
     = Inl (DbError ''boom'')
   \<and> connections (snd (withTenant (\<lambda>t. ''tenant_'' @ t) ''t1'' failing_callback idle_database)) = []
   \<and> last (journal (snd (withTenant (\<lambda>t. ''tenant_'' @ t) ''t1'' failing_callback idle_database)))
       = Disconnect 0"
proof -
  let ?g = "\<lambda>t. ''tenant_'' @ t"
  let ?sql = "search_path_sql (?g ''t1'')"
  let ?w2 = "\<lparr>next_client = Suc 0, connections = [0],
              journal = [NewClient 0, ExecuteRaw 0 ?sql], faults = (\<lambda>_. None)\<rparr>"
  let ?w4 = "\<lparr>next_client = Suc 0, connections = [],
              journal = [NewClient 0, ExecuteRaw 0 ?sql, Disconnect 0], faults = (\<lambda>_. None)\<rparr>"
  have x: "executeRawUnsafe (next_client idle_database) ?sql (snd (new_PrismaClient idle_database))
      = (Inr 0, ?w2)"
    by (simp add: executeRawUnsafe_def new_PrismaClient_def idle_database_def)
  have c: "failing_callback (next_client idle_database) ?w2 = (Inl (DbError ''boom''), ?w2)"
    by (simp add: failing_callback_def)
  have d: "disconnect (next_client idle_database) ?w2 = (Inr (), ?w4)"
    by (simp add: disconnect_def idle_database_def)
  note t = withTenant_releases [of ?g "''t1''" failing_callback idle_database,
      THEN conjunct2, THEN conjunct2, rule_format, of 0 ?w2 "Inl (DbError ''boom'')" ?w2 ?w4]
  from t x c d
  have r: "withTenant ?g ''t1'' failing_callback idle_database = (Inl (DbError ''boom''), ?w4)"
    by blast
  from withTenant_releases [of ?g "''t1''" failing_callback idle_database, THEN conjunct1]
  have "last (journal (snd (withTenant ?g ''t1'' failing_callback idle_database)))
      = Disconnect (next_client idle_database)"
    by simp
  with r show ?thesis by (simp add: idle_database_def)
qed

end
